theory Spec2Isabelle
  imports Main "HOL-Library.Sublist"
begin

unbundle bit_operations_syntax

section \<open>Data model of the BPE tokenizer (src/Targets/GPT2/BPE.hpp)\<close>

text \<open>
  A \<^verbatim>\<open>std::string\<close> is a list of bytes (\<^typ>\<open>string\<close>, a \<^typ>\<open>char\<close> is one byte);
  a \<^verbatim>\<open>std::wstring\<close> is a list of code points. \<^verbatim>\<open>wchar_t\<close> is modelled as a natural
  number: the code targets platforms where it has 32 bits, and every value the program
  computes for it fits in 21 bits, so no arithmetic on it wraps around. \<^verbatim>\<open>ssize_t\<close> values
  (ranks, token ids, slot indices) are integers; the program does no arithmetic on ranks
  or ids, it only compares them.
\<close>

type_synonym wchar = nat
type_synonym wstring = "wchar list"
type_synonym wpair = "wstring \<times> wstring"

text \<open>
  The exceptions the code can raise: \<^verbatim>\<open>std::out_of_range\<close> (from \<^verbatim>\<open>unordered_map::at\<close>,
  \<^verbatim>\<open>std::string::substr\<close> and \<^verbatim>\<open>std::stoi\<close>), \<^verbatim>\<open>std::invalid_argument\<close> (from \<^verbatim>\<open>std::stoi\<close>),
  \<^verbatim>\<open>std::runtime_error("Invalid UTF-8 sequence.")\<close>, and, as a value of its own, a read
  of \<^verbatim>\<open>str[i]\<close> with \<^verbatim>\<open>i > str.size()\<close>, whose behaviour C++ leaves undefined.
\<close>

datatype error = OutOfRange | InvalidArgument | InvalidUTF8 | UndefinedRead

text \<open>
  A \<^verbatim>\<open>std::unordered_map\<close> is a finite map. \<^verbatim>\<open>insert\<close> keeps an existing entry (it does
  not overwrite), \<^verbatim>\<open>at\<close> raises \<^verbatim>\<open>std::out_of_range\<close> on a missing key, \<^verbatim>\<open>find\<close> and
  \<^verbatim>\<open>contains\<close> only read.
\<close>

definition umap_insert :: "('k \<rightharpoonup> 'v) \<Rightarrow> 'k \<Rightarrow> 'v \<Rightarrow> ('k \<rightharpoonup> 'v)" where
  "umap_insert m k v = (if m k = None then m(k \<mapsto> v) else m)"

definition umap_at :: "('k \<rightharpoonup> 'v) \<Rightarrow> 'k \<Rightarrow> error + 'v" where
  "umap_at m k = (case m k of None \<Rightarrow> Inl OutOfRange | Some v \<Rightarrow> Inr v)"

text \<open>The five member tables of class \<^verbatim>\<open>BPE\<close> (the regular expression \<^verbatim>\<open>m_re\<close> is a constant).\<close>

record BPE =
  m_bpeRanks :: "wpair \<rightharpoonup> int"
  m_b2u :: "char \<rightharpoonup> wchar"
  m_u2b :: "wchar \<rightharpoonup> char"
  m_t2i :: "string \<rightharpoonup> int"
  m_i2t :: "int \<rightharpoonup> string"

section \<open>The byte to code point alphabet: \<^verbatim>\<open>bytesToUnicode\<close>\<close>

text \<open>
  \<^verbatim>\<open>insertRange(start, end)\<close>: for \<^verbatim>\<open>c = start .. end\<close> insert \<^verbatim>\<open>{uint8_t(c), wchar_t(c)}\<close>.
\<close>

definition insertRange :: "nat \<Rightarrow> nat \<Rightarrow> (char \<rightharpoonup> wchar) \<Rightarrow> (char \<rightharpoonup> wchar)" where
  "insertRange start end' m = fold (\<lambda>c m. umap_insert m (char_of c) c) [start..<Suc end'] m"

text \<open>
  The second loop: \<^verbatim>\<open>for b = 0 .. 255\<close>, a byte not yet in the map gets code point
  \<^verbatim>\<open>256 + n\<close>, and \<^verbatim>\<open>n\<close> is incremented.
\<close>

definition fillRest :: "(char \<rightharpoonup> wchar) \<Rightarrow> (char \<rightharpoonup> wchar) \<times> nat" where
  "fillRest m = fold (\<lambda>b (m, n). if m (char_of b) = None
                       then (umap_insert m (char_of b) (256 + n), Suc n) else (m, n))
                  [0..<256] (m, 0)"

text \<open>
  The third loop inserts \<^verbatim>\<open>{e.second, e.first}\<close> for every entry \<^verbatim>\<open>e\<close> of \<^verbatim>\<open>m_b2u\<close>, in the
  container's iteration order, which C++ leaves unspecified: \<open>order\<close> is that order, a
  list of the keys.
\<close>

definition invertMap :: "char list \<Rightarrow> (char \<rightharpoonup> wchar) \<Rightarrow> (wchar \<rightharpoonup> char)" where
  "invertMap order m =
     fold (\<lambda>b u. case m b of Some w \<Rightarrow> umap_insert u w b | None \<Rightarrow> u) order Map.empty"

definition bytesToUnicode_in :: "char list \<Rightarrow> BPE \<Rightarrow> BPE" where
  "bytesToUnicode_in order T =
     (let b2u = fst (fillRest (insertRange 174 255 (insertRange 161 172
                      (insertRange 33 126 Map.empty))))
      in T\<lparr>m_b2u := b2u, m_u2b := invertMap order b2u\<rparr>)"

definition all_bytes :: "char list" where
  "all_bytes = map char_of [0..<256::nat]"

text \<open>
  The iteration order is taken to be ascending; \<open>bytesToUnicode_order\<close> below shows that
  every other order that visits all entries builds the same tables.
\<close>

definition bytesToUnicode :: "BPE \<Rightarrow> BPE" where
  "bytesToUnicode T = bytesToUnicode_in all_bytes T"

text \<open>
  The closed form the tables are compared with: a byte of the three printable ranges
  \<^verbatim>\<open>'!'..'~'\<close>, \<^verbatim>\<open>0xA1..0xAC\<close>, \<^verbatim>\<open>0xAE..0xFF\<close> is its own code point; any other byte \<open>b\<close> is
  \<open>256 + k\<close>, where \<open>k\<close> counts the bytes below \<open>b\<close> outside these ranges.
\<close>

definition printable :: "nat \<Rightarrow> bool" where
  "printable n = ((33 \<le> n \<and> n \<le> 126) \<or> (161 \<le> n \<and> n \<le> 172) \<or> (174 \<le> n \<and> n \<le> 255))"

definition b2u_val :: "char \<Rightarrow> wchar" where
  "b2u_val b = (if printable (of_char b) then of_char b
                else 256 + length (filter (\<lambda>x. \<not> printable x) [0..<of_char b]))"

subsection \<open>The tables \<^verbatim>\<open>bytesToUnicode\<close> builds\<close>

lemma char_of_eq_iff: "n < 256 \<Longrightarrow> (char_of (n::nat) = k) = (n = of_char k)"
  by (metis char_of_char of_char_of mod_less) 

lemma fold_insert_ident:
  "\<forall>x\<in>set xs. x < 256 \<Longrightarrow>
   fold (\<lambda>c m. umap_insert m (char_of c) c) xs m k =
     (case m k of Some v \<Rightarrow> Some v
      | None \<Rightarrow> if of_char k \<in> set xs then Some (of_char k :: nat) else None)"
proof (induction xs arbitrary: m)
  case Nil
  then show ?case by (simp split: option.splits)
next
  case (Cons x xs)
  then have x: "x < 256" by simp
  show ?case using Cons
    by (auto simp: umap_insert_def char_of_eq_iff [OF x] split: option.splits)
qed

lemma insertRange_apply:
  "e < 256 \<Longrightarrow> insertRange s e m k =
     (case m k of Some v \<Rightarrow> Some v
      | None \<Rightarrow> if s \<le> of_char k \<and> of_char k \<le> e then Some (of_char k) else None)"
  unfolding insertRange_def
  by (subst fold_insert_ident) (auto split: option.splits)


lemma printable_map:
  "insertRange 174 255 (insertRange 161 172 (insertRange 33 126 Map.empty)) k =
     (if printable (of_char k) then Some (of_char k) else None)"
  by (simp add: insertRange_apply printable_def)

definition npb :: "nat \<Rightarrow> nat" where
  "npb j = length (filter (\<lambda>x. \<not> printable x) [0..<j])"

lemma fillRest_prefix:
  assumes m0: "\<And>k. m0 k = (if printable (of_char k) then Some (of_char k) else None)"
  shows "j \<le> 256 \<Longrightarrow>
    fold (\<lambda>b (m, n). if m (char_of b) = None
                       then (umap_insert m (char_of b) (256 + n), Suc n) else (m, n))
                  [0..<j] (m0, 0) =
    ((\<lambda>k. if printable (of_char k) then Some (of_char k)
           else if of_char k < j then Some (256 + npb (of_char k)) else None), npb j)"
proof (induction j)
  case 0
  then show ?case by (auto simp: m0 npb_def)
next
  case (Suc j)
  then have j: "j < 256" by simp
  show ?case using Suc
    by (auto simp: npb_def umap_insert_def char_of_eq_iff [OF j] fun_eq_iff m0 less_Suc_eq)
qed

lemma b2u_table:
  "fst (fillRest (insertRange 174 255 (insertRange 161 172 (insertRange 33 126 Map.empty)))) k
     = Some (b2u_val k)"
proof -
  have "(of_char k :: nat) < 256" by (rule nat_of_char_less_256)
  then show ?thesis
    unfolding fillRest_def
    by (subst fillRest_prefix [where j = 256, OF printable_map])
       (simp_all add: b2u_val_def npb_def)
qed

lemma npb_mono: "i < j \<Longrightarrow> \<not> printable i \<Longrightarrow> npb i < npb j"
proof (induction j)
  case 0
  then show ?case by simp
next
  case (Suc j)
  then show ?case by (cases "i = j") (auto simp: npb_def less_Suc_eq)
qed

lemma b2u_val_inj: "b2u_val a = b2u_val b \<Longrightarrow> a = b"
proof -
  assume eq: "b2u_val a = b2u_val b"
  have la: "(of_char a :: nat) < 256" and lb: "(of_char b :: nat) < 256"
    by (rule nat_of_char_less_256)+
  have "(of_char a :: nat) = of_char b"
  proof (cases "printable (of_char a)"; cases "printable (of_char b)")
    assume "\<not> printable (of_char a)" "\<not> printable (of_char b)"
    then show ?thesis
      using eq npb_mono [of "of_char a" "of_char b"] npb_mono [of "of_char b" "of_char a"]
      by (fastforce simp: b2u_val_def npb_def [symmetric] not_less_iff_gr_or_eq)
  qed (use eq la lb in \<open>auto simp: b2u_val_def\<close>)
  then show ?thesis by (metis char_of_char)
qed

lemma invert_fold:
  "fold (\<lambda>b u. case m b of Some w \<Rightarrow> umap_insert u w b | None \<Rightarrow> u) order u0 w =
     (case u0 w of Some b \<Rightarrow> Some b | None \<Rightarrow> List.find (\<lambda>b. m b = Some w) order)"
  by (induction order arbitrary: u0) (auto simp: umap_insert_def split: option.splits)

lemma find_inj:
  "inj f \<Longrightarrow> List.find (\<lambda>b. f b = w) order =
     (if w \<in> f ` set order then Some (inv f w) else None)"
  by (induction order) (auto simp: inj_eq)

lemma inj_b2u_val: "inj b2u_val"
  by (rule injI) (rule b2u_val_inj)

lemma invertMap_apply:
  assumes "\<And>k. m k = Some (b2u_val k)"
  shows "invertMap order m w = (if w \<in> b2u_val ` set order then Some (inv b2u_val w) else None)"
  unfolding invertMap_def
  by (subst invert_fold) (simp add: assms find_inj [OF inj_b2u_val])

lemma set_all_bytes: "set all_bytes = UNIV"
proof -
  have "c \<in> set all_bytes" for c
    unfolding all_bytes_def using nat_of_char_less_256 [of c]
    by (metis atLeast_upt char_of_char image_eqI lessThan_iff set_map)
  then show ?thesis by auto
qed

lemma m_b2u_bytesToUnicode_in: "m_b2u (bytesToUnicode_in order T) k = Some (b2u_val k)"
  by (simp add: bytesToUnicode_in_def Let_def b2u_table)

lemma m_u2b_bytesToUnicode_in:
  "m_u2b (bytesToUnicode_in order T) w =
     (if w \<in> b2u_val ` set order then Some (inv b2u_val w) else None)"
  by (simp add: bytesToUnicode_in_def Let_def invertMap_apply [OF b2u_table])

lemma bytesToUnicode_order:
  "set order = UNIV \<Longrightarrow> bytesToUnicode_in order T = bytesToUnicode T"
  unfolding bytesToUnicode_def
  by (rule BPE.equality)
     (auto simp: fun_eq_iff m_b2u_bytesToUnicode_in m_u2b_bytesToUnicode_in set_all_bytes,
      simp_all add: bytesToUnicode_in_def Let_def)

lemma m_b2u_bytesToUnicode: "m_b2u (bytesToUnicode T) k = Some (b2u_val k)"
  by (simp add: bytesToUnicode_def m_b2u_bytesToUnicode_in)

lemma m_u2b_bytesToUnicode: "m_u2b (bytesToUnicode T) (b2u_val k) = Some k"
  by (simp add: bytesToUnicode_def m_u2b_bytesToUnicode_in set_all_bytes inj_b2u_val)

lemma dom_m_u2b_bytesToUnicode: "dom (m_u2b (bytesToUnicode T)) = range b2u_val"
  by (auto simp: bytesToUnicode_def m_u2b_bytesToUnicode_in set_all_bytes dom_def)

text \<open>
  Claim C7. After \<^verbatim>\<open>bytesToUnicode\<close>, the byte to code point table is total on the 256
  bytes and agrees with the closed form \<open>b2u_val\<close> (a byte of the printable ranges is its
  own code point, the others get 256, 257, ... in ascending byte order); the code point
  to byte table maps the code point of every byte back to that byte, its domain is
  exactly the set of these code points, and these are 256 distinct code points.
\<close>

theorem bytesToUnicode_bijection:
  "(\<forall>b. umap_at (m_b2u (bytesToUnicode T)) b = Inr (b2u_val b)) \<and>
   (\<forall>b. umap_at (m_u2b (bytesToUnicode T)) (b2u_val b) = Inr b) \<and>
   dom (m_u2b (bytesToUnicode T)) = range b2u_val \<and>
   inj b2u_val \<and> card (range b2u_val) = 256"
proof -
  have "card (range b2u_val) = card (UNIV :: char set)"
    by (rule card_image [OF inj_b2u_val])
  then show ?thesis
    by (simp add: umap_at_def m_b2u_bytesToUnicode m_u2b_bytesToUnicode
        dom_m_u2b_bytesToUnicode inj_b2u_val card_UNIV_char)
qed

section \<open>UTF-8 conversion: \<^verbatim>\<open>utf8ToWString\<close> and \<^verbatim>\<open>wstringToUTF8\<close>\<close>

text \<open>
  \<open>peek cs k\<close> is the read \<^verbatim>\<open>str[i + 1 + k]\<close> when \<open>cs\<close> is what follows \<^verbatim>\<open>str[i]\<close>: inside
  the string it is the byte there, at \<^verbatim>\<open>str.size()\<close> it is the terminating NUL, further
  out it is undefined.
\<close>

definition peek :: "string \<Rightarrow> nat \<Rightarrow> error + nat" where
  "peek cs k = (if k < length cs then Inr (of_char (cs ! k))
                else if k = length cs then Inr 0 else Inl UndefinedRead)"

definition and_then :: "error + 'a \<Rightarrow> ('a \<Rightarrow> error + 'b) \<Rightarrow> error + 'b" where
  "and_then r f = (case r of Inl e \<Rightarrow> Inl e | Inr x \<Rightarrow> f x)"

text \<open>
  The loop of \<^verbatim>\<open>utf8ToWString\<close>, by recursion on the bytes from position \<^verbatim>\<open>i\<close> on: the
  byte \<^verbatim>\<open>ch = str[i]\<close> selects the branch, the branch reads up to three more bytes and
  advances \<^verbatim>\<open>i\<close> by 1 to 4 (possibly past the end, which ends the loop).
\<close>

fun utf8ToWString :: "string \<Rightarrow> error + wstring" where
  "utf8ToWString [] = Inr []"
| "utf8ToWString (c # cs) =
     (let ch = (of_char c :: nat) in
      if ch \<le> 0x7f then
        and_then (utf8ToWString cs) (\<lambda>ws. Inr (ch # ws))
      else if ch \<le> 0xdf then
        and_then (peek cs 0) (\<lambda>c1.
        and_then (utf8ToWString (drop 1 cs)) (\<lambda>ws.
          Inr ((push_bit 6 (ch AND 0x1f) OR (c1 AND 0x3f)) # ws)))
      else if ch \<le> 0xef then
        and_then (peek cs 0) (\<lambda>c1.
        and_then (peek cs 1) (\<lambda>c2.
        and_then (utf8ToWString (drop 2 cs)) (\<lambda>ws.
          Inr ((push_bit 12 (ch AND 0x0f) OR push_bit 6 (c1 AND 0x3f) OR (c2 AND 0x3f)) # ws))))
      else if ch \<le> 0xf7 then
        and_then (peek cs 0) (\<lambda>c1.
        and_then (peek cs 1) (\<lambda>c2.
        and_then (peek cs 2) (\<lambda>c3.
        and_then (utf8ToWString (drop 3 cs)) (\<lambda>ws.
          Inr ((push_bit 18 (ch AND 0x07) OR push_bit 12 (c1 AND 0x3f)
                 OR push_bit 6 (c2 AND 0x3f) OR (c3 AND 0x3f)) # ws)))))
      else Inl InvalidUTF8)"

text \<open>One iteration of the loop of \<^verbatim>\<open>wstringToUTF8\<close>; a value above 0x10ffff emits nothing.\<close>

definition utf8_of_wchar :: "wchar \<Rightarrow> string" where
  "utf8_of_wchar wc =
     (if wc \<le> 0x7f then [char_of wc]
      else if wc \<le> 0x7ff then
        [char_of (0xc0 OR (drop_bit 6 wc AND 0x1f)), char_of (0x80 OR (wc AND 0x3f))]
      else if wc \<le> 0xffff then
        [char_of (0xe0 OR (drop_bit 12 wc AND 0x0f)), char_of (0x80 OR (drop_bit 6 wc AND 0x3f)),
         char_of (0x80 OR (wc AND 0x3f))]
      else if wc \<le> 0x10ffff then
        [char_of (0xf0 OR (drop_bit 18 wc AND 0x07)), char_of (0x80 OR (drop_bit 12 wc AND 0x3f)),
         char_of (0x80 OR (drop_bit 6 wc AND 0x3f)), char_of (0x80 OR (wc AND 0x3f))]
      else [])"

definition wstringToUTF8 :: "wstring \<Rightarrow> string" where
  "wstringToUTF8 wstr = concat (map utf8_of_wchar wstr)"





subsection \<open>The bit operations as arithmetic\<close>

lemma and_mask_mod:
  "(x::nat) AND 0x3f = x mod 64" "(x::nat) AND 0x1f = x mod 32"
  "(x::nat) AND 0x0f = x mod 16" "(x::nat) AND 0x07 = x mod 8"
  using take_bit_eq_mask [of 6 x] take_bit_eq_mask [of 5 x]
        take_bit_eq_mask [of 4 x] take_bit_eq_mask [of 3 x]
  by (simp_all add: take_bit_eq_mod mask_eq_exp_minus_1)

lemma shift_or_add:
  fixes a b :: nat
  assumes "b < 2 ^ n"
  shows "a * 2 ^ n OR b = a * 2 ^ n + b"
proof -
  have "\<not> (bit (a * 2 ^ n) k \<and> bit b k)" for k
  proof (cases "k < n")
    case True
    then show ?thesis
      using bit_push_bit_iff [of n a k] by (simp add: push_bit_eq_mult)
  next
    case False
    then have "b < 2 ^ k"
      using assms by (meson leI less_le_trans one_le_numeral power_increasing)
    then show ?thesis by (simp add: bit_iff_odd)
  qed
  then have "a * 2 ^ n AND b = 0"
    by (simp add: bit_eq_iff bit_and_iff)
  then show ?thesis by (simp add: disjunctive_add_eq_or)
qed

lemma or_add_consts:
  fixes y :: nat
  shows "y < 64 \<Longrightarrow> 0x80 OR y = 128 + y" "y < 32 \<Longrightarrow> 0xc0 OR y = 192 + y"
    "y < 16 \<Longrightarrow> 0xe0 OR y = 224 + y" "y < 8 \<Longrightarrow> 0xf0 OR y = 240 + y"
  using shift_or_add [of y 6 2] shift_or_add [of y 5 6] shift_or_add [of y 4 14]
    shift_or_add [of y 3 30]
  by simp_all

lemma or_add_shifts:
  fixes a b :: nat
  shows "b < 64 \<Longrightarrow> a * 64 OR b = a * 64 + b"
    "b < 4096 \<Longrightarrow> a * 4096 OR b = a * 4096 + b"
    "b < 262144 \<Longrightarrow> a * 262144 OR b = a * 262144 + b"
  using shift_or_add [of b 6 a] shift_or_add [of b 12 a] shift_or_add [of b 18 a]
  by simp_all

lemmas bits_arith = and_mask_mod or_add_consts or_add_shifts push_bit_eq_mult drop_bit_eq_div

section \<open>The pretokenizer pattern \<^verbatim>\<open>m_re\<close>\<close>

text \<open>
  \<^verbatim>\<open>std::regex_search\<close> with the pattern
  \<^verbatim>\<open>('s|'t|'re|'ve|'m|'ll|'d| ?[a-zA-Z]+| ?\d+| ?[^\s\w]+|\s+)\<close>
  is library code; it is modelled by a matcher for this one pattern, following the
  ECMAScript grammar \<^verbatim>\<open>std::wregex\<close> uses by default: the alternatives are tried in the
  order written and the first that matches at a position is taken, \<^verbatim>\<open>?\<close> and \<^verbatim>\<open>+\<close> are
  greedy, and the search returns the match at the leftmost position that has one.
  The character classes are those of the classic \<^verbatim>\<open>"C"\<close> locale, in which only ASCII
  characters are classified: \<^verbatim>\<open>\s\<close> is space, tab, line feed, vertical tab, form feed and
  carriage return; \<^verbatim>\<open>\d\<close> is \<^verbatim>\<open>0-9\<close>; \<^verbatim>\<open>\w\<close> is \<^verbatim>\<open>[A-Za-z0-9_]\<close>.
\<close>

definition is_space :: "wchar \<Rightarrow> bool" where
  "is_space c = (c = 0x20 \<or> (0x09 \<le> c \<and> c \<le> 0x0D))"

definition is_digit :: "wchar \<Rightarrow> bool" where
  "is_digit c = (0x30 \<le> c \<and> c \<le> 0x39)"

definition is_letter :: "wchar \<Rightarrow> bool" where
  "is_letter c = ((0x41 \<le> c \<and> c \<le> 0x5A) \<or> (0x61 \<le> c \<and> c \<le> 0x7A))"

definition is_word :: "wchar \<Rightarrow> bool" where
  "is_word c = (is_letter c \<or> is_digit c \<or> c = 0x5F)"

definition is_other :: "wchar \<Rightarrow> bool" where
  "is_other c = (\<not> is_space c \<and> \<not> is_word c)"

text \<open>The seven literal alternatives \<^verbatim>\<open>'s 't 're 've 'm 'll 'd\<close> (0x27 is the apostrophe).\<close>

definition contractions :: "wstring list" where
  "contractions = [[0x27, 0x73], [0x27, 0x74], [0x27, 0x72, 0x65], [0x27, 0x76, 0x65],
                   [0x27, 0x6D], [0x27, 0x6C, 0x6C], [0x27, 0x64]]"

text \<open>
  An alternative \<^verbatim>\<open> ?[class]+\<close> at the start of \<open>ws\<close>: the optional space is tried first
  with the space taken, then without it.
\<close>

definition opt_space_run :: "(wchar \<Rightarrow> bool) \<Rightarrow> wstring \<Rightarrow> nat option" where
  "opt_space_run P ws =
     (case ws of
        [] \<Rightarrow> None
      | c # rest \<Rightarrow>
          if c = 0x20 \<and> takeWhile P rest \<noteq> [] then Some (Suc (length (takeWhile P rest)))
          else if takeWhile P ws \<noteq> [] then Some (length (takeWhile P ws))
          else None)"

definition or_else :: "'a option \<Rightarrow> 'a option \<Rightarrow> 'a option" where
  "or_else a b = (case a of Some x \<Rightarrow> Some x | None \<Rightarrow> b)"

text \<open>The length of the match of the whole pattern at the start of \<open>ws\<close>, if there is one.\<close>

definition match_here :: "wstring \<Rightarrow> nat option" where
  "match_here ws =
     or_else (map_option length (List.find (\<lambda>l. prefix l ws) contractions))
    (or_else (opt_space_run is_letter ws)
    (or_else (opt_space_run is_digit ws)
    (or_else (opt_space_run is_other ws)
             (if takeWhile is_space ws \<noteq> [] then Some (length (takeWhile is_space ws))
              else None))))"

text \<open>
  \<open>regex_search ws\<close> is \<^verbatim>\<open>(match.str(), match.suffix())\<close> of the leftmost match in \<open>ws\<close>;
  the characters before the match are skipped.
\<close>

fun regex_search :: "wstring \<Rightarrow> (wstring \<times> wstring) option" where
  "regex_search [] = None"
| "regex_search (c # cs) =
     (case match_here (c # cs) of
        Some n \<Rightarrow> Some (take n (c # cs), drop n (c # cs))
      | None \<Rightarrow> regex_search cs)"

section \<open>The merge loop: \<^verbatim>\<open>getPairs\<close> and \<^verbatim>\<open>bpe\<close>\<close>

definition SSIZE_MAX :: int where
  "SSIZE_MAX = 2 ^ 63 - 1"

fun getPairs_loop :: "wchar \<Rightarrow> wstring \<Rightarrow> wpair list" where
  "getPairs_loop previous [] = []"
| "getPairs_loop previous (c # cs) = ([previous], [c]) # getPairs_loop c cs"

definition getPairs :: "wstring \<Rightarrow> wpair list" where
  "getPairs word = (if length word < 2 then [] else getPairs_loop (hd word) (tl word))"

text \<open>
  The lambdas \<^verbatim>\<open>left\<close> and \<^verbatim>\<open>right\<close>: the nearest index below \<^verbatim>\<open>i\<close> (above \<^verbatim>\<open>i\<close>) that is not
  in \<^verbatim>\<open>merged\<close>, or \<^verbatim>\<open>-1\<close> (\<^verbatim>\<open>cap\<close>).
\<close>

function left_loop :: "int \<Rightarrow> int set \<Rightarrow> int" where
  "left_loop j merged =
     (if j \<ge> -1 then (if j \<notin> merged then j else left_loop (j - 1) merged) else -1)"
  by pat_completeness auto
termination
  by (relation "measure (\<lambda>(j, merged). nat (j + 2))") auto

definition left :: "int \<Rightarrow> int set \<Rightarrow> int" where
  "left i merged = left_loop (i - 1) merged"

function right_loop :: "int \<Rightarrow> int \<Rightarrow> int set \<Rightarrow> int" where
  "right_loop j cap merged =
     (if j < cap then (if j \<notin> merged then j else right_loop (j + 1) cap merged) else cap)"
  by pat_completeness auto
termination
  by (relation "measure (\<lambda>(j, cap, merged). nat (cap - j))") auto

definition right :: "int \<Rightarrow> int \<Rightarrow> int set \<Rightarrow> int" where
  "right i cap merged = right_loop (i + 1) cap merged"

text \<open>
  The selection loop: \<^verbatim>\<open>score\<close> is the rank of the pair, or \<^verbatim>\<open>max()\<close> when the table has no
  rule for it; a slot replaces the current choice only when its score is strictly smaller.
\<close>

definition score :: "(wpair \<rightharpoonup> int) \<Rightarrow> wpair \<Rightarrow> int" where
  "score ranks p = (case ranks p of Some r \<Rightarrow> r | None \<Rightarrow> SSIZE_MAX)"

definition select_step ::
  "(wpair \<rightharpoonup> int) \<Rightarrow> wpair list \<Rightarrow> int set \<Rightarrow> int \<Rightarrow> int \<times> int \<Rightarrow> int \<times> int" where
  "select_step ranks pairs merged i st =
     (case st of (minScore, toMerge) \<Rightarrow>
        if i \<notin> merged then
          (if score ranks (pairs ! nat i) < minScore then (score ranks (pairs ! nat i), i)
           else (minScore, toMerge))
        else (minScore, toMerge))"

definition select :: "(wpair \<rightharpoonup> int) \<Rightarrow> wpair list \<Rightarrow> int set \<Rightarrow> int \<times> int" where
  "select ranks pairs merged =
     fold (select_step ranks pairs merged) [0..int (length pairs) - 1] (SSIZE_MAX, -1)"

text \<open>One iteration of \<^verbatim>\<open>while (true)\<close> after \<^verbatim>\<open>toMerge\<close> has been chosen.\<close>

definition merge_slot :: "int \<Rightarrow> wpair list \<Rightarrow> int set \<Rightarrow> wpair list \<times> int set" where
  "merge_slot toMerge pairs merged =
     (let merged' = insert toMerge merged;
          mergeInto = fst (pairs ! nat toMerge) @ snd (pairs ! nat toMerge);
          l = left toMerge merged';
          pairs1 = (if l \<ge> 0 then pairs[nat l := (fst (pairs ! nat l), mergeInto)] else pairs);
          r = right toMerge (int (length pairs1)) merged';
          pairs2 = (if r < int (length pairs1)
                    then pairs1[nat r := (mergeInto, snd (pairs1 ! nat r))] else pairs1)
      in (pairs2, merged'))"


lemma fold_select_mem:
  "fold (select_step ranks pairs merged) xs (s0, t0) = (s, t) \<Longrightarrow>
     t = t0 \<or> (t \<in> set xs \<and> t \<notin> merged)"
proof (induction xs arbitrary: s0 t0)
  case Nil
  then show ?case by simp
next
  case (Cons x xs)
  obtain s1 t1 where st: "select_step ranks pairs merged x (s0, t0) = (s1, t1)"
    by (cases "select_step ranks pairs merged x (s0, t0)")
  then have t1: "t1 = t0 \<or> (t1 = x \<and> x \<notin> merged)"
    by (auto simp: select_step_def split: if_splits)
  from Cons.prems st have "fold (select_step ranks pairs merged) xs (s1, t1) = (s, t)"
    by simp
  from Cons.IH [OF this] t1 show ?case by auto
qed

lemma select_range:
  "snd (select ranks pairs merged) \<noteq> -1 \<Longrightarrow>
     0 \<le> snd (select ranks pairs merged) \<and> snd (select ranks pairs merged) < int (length pairs)
     \<and> snd (select ranks pairs merged) \<notin> merged"
  using fold_select_mem [of ranks pairs merged "[0..int (length pairs) - 1]" SSIZE_MAX "-1"
      "fst (select ranks pairs merged)" "snd (select ranks pairs merged)"]
  by (auto simp: select_def)

lemma length_merge_slot [simp]: "length (fst (merge_slot t pairs merged)) = length pairs"
  by (simp add: merge_slot_def Let_def)

lemma snd_merge_slot [simp]: "snd (merge_slot t pairs merged) = insert t merged"
  by (simp add: merge_slot_def Let_def)


lemma unmerged_card_less:
  fixes t n :: int
  assumes "0 \<le> t" "t < n" "t \<notin> merged"
  shows "card ({0..n - 1} - insert t merged) < card ({0..n - 1} - merged)"
proof (rule psubset_card_mono)
  show "finite ({0..n - 1} - merged)" by simp
  have "t \<in> {0..n - 1} - merged" using assms by simp
  then show "{0..n - 1} - insert t merged \<subset> {0..n - 1} - merged" by blast
qed

text \<open>
  The loop \<^verbatim>\<open>while (true)\<close> of \<^verbatim>\<open>bpe\<close>: it ends when the selection leaves \<^verbatim>\<open>toMerge = -1\<close>.
  Every other iteration marks one more slot as merged, so the loop terminates.
\<close>

function merge_loop :: "(wpair \<rightharpoonup> int) \<Rightarrow> wpair list \<Rightarrow> int set \<Rightarrow> wpair list \<times> int set" where
  "merge_loop ranks pairs merged =
     (let toMerge = snd (select ranks pairs merged) in
      if toMerge = -1 then (pairs, merged)
      else merge_loop ranks (fst (merge_slot toMerge pairs merged))
                            (snd (merge_slot toMerge pairs merged)))"
  by pat_completeness auto
termination
proof (relation "measure (\<lambda>(ranks, pairs, merged). card ({0..int (length pairs) - 1} - merged))", goal_cases)
  case 1
  show ?case by simp
next
  case (2 ranks pairs merged t)
  then have "0 \<le> t \<and> t < int (length pairs) \<and> t \<notin> merged"
    using select_range [of ranks pairs merged] by blast
  then show ?case
    using unmerged_card_less [of t "int (length pairs)" merged] by simp
qed

declare merge_loop.simps [simp del] left_loop.simps [simp del] right_loop.simps [simp del]

text \<open>The output loop of \<^verbatim>\<open>bpe\<close>.\<close>

definition emit :: "wstring \<Rightarrow> wpair list \<Rightarrow> int set \<Rightarrow> wstring list" where
  "emit token pairs merged =
     (if card merged = length pairs then [token]
      else concat (map (\<lambda>i. if i \<notin> merged
                            then (if left i merged < 0 then [fst (pairs ! nat i)] else [])
                                 @ [snd (pairs ! nat i)]
                            else [])
                    [0..int (length pairs) - 1]))"

text \<open>
  \<^verbatim>\<open>bpe\<close> is a non-const member function: it returns the object along with the symbols it
  appends to \<^verbatim>\<open>*result\<close>. It raises no exception.
\<close>

definition bpe :: "BPE \<Rightarrow> wstring \<Rightarrow> wstring list \<times> BPE" where
  "bpe T token =
     (case merge_loop (m_bpeRanks T) (getPairs token) {} of
        (pairs, merged) \<Rightarrow> (emit token pairs merged, T))"


section \<open>\<^verbatim>\<open>byteEncodeToken\<close>, \<^verbatim>\<open>tokenize\<close>, \<^verbatim>\<open>encode\<close> and \<^verbatim>\<open>decode\<close>\<close>

text \<open>\<^verbatim>\<open>byteEncodeToken\<close> (a const member): \<^verbatim>\<open>m_b2u.at\<close> of every byte of the token.\<close>

fun byteEncodeToken :: "BPE \<Rightarrow> string \<Rightarrow> error + wstring" where
  "byteEncodeToken T [] = Inr []"
| "byteEncodeToken T (c # cs) =
     and_then (umap_at (m_b2u T) c) (\<lambda>wc.
     and_then (byteEncodeToken T cs) (\<lambda>ws. Inr (wc # ws)))"

text \<open>
  The loop of \<^verbatim>\<open>tokenize\<close>, from \<^verbatim>\<open>searchStart\<close> on: \<open>ws\<close> is the text from \<^verbatim>\<open>searchStart\<close> to
  the end. A match is never empty, so the rest gets shorter.
\<close>

lemma opt_space_run_bounds:
  "opt_space_run P ws = Some n \<Longrightarrow> 0 < n \<and> n \<le> length ws"
  using length_takeWhile_le [of P ws] length_takeWhile_le [of P "tl ws"]
  by (cases ws) (auto simp: opt_space_run_def split: if_splits)

lemma match_here_bounds: "match_here ws = Some n \<Longrightarrow> 0 < n \<and> n \<le> length ws"
proof -
  assume m: "match_here ws = Some n"
  have c: "List.find (\<lambda>l. prefix l ws) contractions = Some l \<Longrightarrow> 0 < length l \<and> length l \<le> length ws" for l
    by (auto simp: find_Some_iff contractions_def nth_Cons' prefix_length_le split: if_splits)
  from m show ?thesis
    using c opt_space_run_bounds [of is_letter ws n] opt_space_run_bounds [of is_digit ws n]
      opt_space_run_bounds [of is_other ws n] length_takeWhile_le [of is_space ws]
    by (auto simp: match_here_def or_else_def split: option.splits if_splits)
qed

lemma regex_search_shorter:
  "regex_search ws = Some (m, rest) \<Longrightarrow> length rest < length ws"
proof (induction ws)
  case Nil
  then show ?case by simp
next
  case (Cons c cs)
  then show ?case
    using match_here_bounds [of "c # cs"]
    by (fastforce split: option.splits)
qed

function tokenize_loop :: "BPE \<Rightarrow> wstring \<Rightarrow> string list \<Rightarrow> (error + string list) \<times> BPE" where
  "tokenize_loop T ws result =
     (case regex_search ws of
        None \<Rightarrow> (Inr result, T)
      | Some (wtoken, rest) \<Rightarrow>
          (case byteEncodeToken T (wstringToUTF8 wtoken) of
             Inl e \<Rightarrow> (Inl e, T)
           | Inr encodedToken \<Rightarrow>
               (case bpe T encodedToken of
                  (bpeTokens, T') \<Rightarrow>
                    tokenize_loop T' rest (result @ map wstringToUTF8 bpeTokens))))"
  by pat_completeness auto
termination
  by (relation "measure (\<lambda>(T, ws, result). length ws)") (auto dest: regex_search_shorter)

declare tokenize_loop.simps [simp del]

definition tokenize :: "BPE \<Rightarrow> string \<Rightarrow> string list \<Rightarrow> (error + string list) \<times> BPE" where
  "tokenize T text result =
     (case utf8ToWString text of
        Inl e \<Rightarrow> (Inl e, T)
      | Inr wtext \<Rightarrow> tokenize_loop T wtext result)"

text \<open>
  \<^verbatim>\<open>text.find(eot, pos)\<close>: the lowest position \<^verbatim>\<open>\<ge> pos\<close> at which \<^verbatim>\<open>eot\<close> occurs, \<^verbatim>\<open>npos\<close>
  (\<open>None\<close>) when there is none. \<open>find_from eot cs pos\<close> searches \<open>cs\<close>, the text from
  position \<open>pos\<close> on. \<^verbatim>\<open>substr(pos, n)\<close> raises \<^verbatim>\<open>std::out_of_range\<close> when \<^verbatim>\<open>pos > size()\<close>.
\<close>

fun find_from :: "string \<Rightarrow> string \<Rightarrow> nat \<Rightarrow> nat option" where
  "find_from pat [] pos = (if pat = [] then Some pos else None)"
| "find_from pat (c # cs) pos =
     (if prefix pat (c # cs) then Some pos else find_from pat cs (Suc pos))"

definition string_find :: "string \<Rightarrow> string \<Rightarrow> nat \<Rightarrow> nat option" where
  "string_find text pat pos =
     (if pos \<le> length text then find_from pat (drop pos text) pos else None)"

definition substr :: "string \<Rightarrow> nat \<Rightarrow> nat \<Rightarrow> error + string" where
  "substr text pos n = (if pos \<le> length text then Inr (take n (drop pos text)) else Inl OutOfRange)"

definition substr_from :: "string \<Rightarrow> nat \<Rightarrow> error + string" where
  "substr_from text pos = (if pos \<le> length text then Inr (drop pos text) else Inl OutOfRange)"

text \<open>
  The loop \<^verbatim>\<open>while (i != npos)\<close> of \<^verbatim>\<open>encode\<close> together with the call of \<^verbatim>\<open>tokenize\<close> that
  follows it. The loop need not terminate, so the result is an option: \<open>None\<close> is a run
  that never returns.
\<close>

partial_function (option) encode_loop ::
  "BPE \<Rightarrow> string \<Rightarrow> string \<Rightarrow> nat \<Rightarrow> nat option \<Rightarrow> string list
     \<Rightarrow> ((error + string list) \<times> BPE) option" where
  "encode_loop T text eot s i tokens =
     (case i of
        None \<Rightarrow>
          (case substr_from text s of
             Inl e \<Rightarrow> Some (Inl e, T)
           | Inr seg \<Rightarrow> Some (tokenize T seg tokens))
      | Some i' \<Rightarrow>
          (case substr text s (i' - s) of
             Inl e \<Rightarrow> Some (Inl e, T)
           | Inr seg \<Rightarrow>
               (case tokenize T seg tokens of
                  (Inl e, T') \<Rightarrow> Some (Inl e, T')
                | (Inr tokens', T') \<Rightarrow>
                    encode_loop T' text eot (i' + length eot)
                      (string_find text eot (i' + length eot)) (tokens' @ [eot]))))"

text \<open>The second loop of \<^verbatim>\<open>encode\<close>: \<^verbatim>\<open>m_t2i.at(token)\<close> for every token.\<close>

fun lookup_ids :: "BPE \<Rightarrow> string list \<Rightarrow> error + int list" where
  "lookup_ids T [] = Inr []"
| "lookup_ids T (token # tokens) =
     and_then (umap_at (m_t2i T) token) (\<lambda>i.
     and_then (lookup_ids T tokens) (\<lambda>ids. Inr (i # ids)))"

definition encode :: "BPE \<Rightarrow> string \<Rightarrow> string \<Rightarrow> ((error + int list) \<times> BPE) option" where
  "encode T text eot =
     (case encode_loop T text eot 0 (string_find text eot 0) [] of
        None \<Rightarrow> None
      | Some (Inl e, T') \<Rightarrow> Some (Inl e, T')
      | Some (Inr tokens, T') \<Rightarrow> Some (lookup_ids T' tokens, T'))"

text \<open>The default argument of \<^verbatim>\<open>encode\<close>.\<close>

definition endoftext :: string where
  "endoftext = ''<|endoftext|>''"

text \<open>\<^verbatim>\<open>decode\<close>: the two loops, with \<^verbatim>\<open>utf8ToWString\<close> between them.\<close>

fun lookup_tokens :: "BPE \<Rightarrow> int list \<Rightarrow> error + string" where
  "lookup_tokens T [] = Inr []"
| "lookup_tokens T (i # ids) =
     and_then (umap_at (m_i2t T) i) (\<lambda>token.
     and_then (lookup_tokens T ids) (\<lambda>str. Inr (token @ str)))"

fun lookup_bytes :: "BPE \<Rightarrow> wstring \<Rightarrow> error + string" where
  "lookup_bytes T [] = Inr []"
| "lookup_bytes T (c # cs) =
     and_then (umap_at (m_u2b T) c) (\<lambda>b.
     and_then (lookup_bytes T cs) (\<lambda>text. Inr (b # text)))"

definition decode :: "BPE \<Rightarrow> int list \<Rightarrow> (error + string) \<times> BPE" where
  "decode T tokenIds =
     (and_then (lookup_tokens T tokenIds) (\<lambda>str.
      and_then (utf8ToWString str) (\<lambda>wstr. lookup_bytes T wstr)), T)"

section \<open>Loading the tables and constructing the tokenizer\<close>

text \<open>
  A file is read with \<^verbatim>\<open>std::getline\<close> on a \<^verbatim>\<open>std::fstream\<close>. When the file cannot be opened
  the stream is in a failed state and the first \<^verbatim>\<open>getline\<close> already returns false: the loop
  body never runs and nothing is raised. A file is therefore its list of lines, or one
  of the two ways it cannot be read.
\<close>

datatype infile = Missing | Unreadable | Content "string list"

definition getlines :: "infile \<Rightarrow> string list" where
  "getlines f = (case f of Content ls \<Rightarrow> ls | _ \<Rightarrow> [])"

text \<open>
  A rule line is split at its first space. Without a space \<^verbatim>\<open>d\<close> is \<^verbatim>\<open>npos\<close>:
  \<^verbatim>\<open>substr(0, npos)\<close> is the whole line and \<^verbatim>\<open>d + 1\<close> wraps around to 0, so both halves
  are the whole line.
\<close>

definition split_rule :: "string \<Rightarrow> string \<times> string" where
  "split_rule line =
     (case string_find line '' '' 0 of
        None \<Rightarrow> (line, line)
      | Some d \<Rightarrow> (take d line, drop (Suc d) line))"

text \<open>
  The loop of \<^verbatim>\<open>loadMergeRules\<close>; \<open>n\<close> is the value of the counter before \<^verbatim>\<open>n++\<close>, which is
  also the rank \<^verbatim>\<open>n - 1\<close> the line gets after the increment.
\<close>

fun loadMergeRules_loop ::
  "(wpair \<rightharpoonup> int) \<Rightarrow> int \<Rightarrow> string list \<Rightarrow> error + (wpair \<rightharpoonup> int)" where
  "loadMergeRules_loop ranks n [] = Inr ranks"
| "loadMergeRules_loop ranks n (line # lines) =
     (if n > 0 then
        and_then (utf8ToWString (fst (split_rule line))) (\<lambda>l.
        and_then (utf8ToWString (snd (split_rule line))) (\<lambda>r.
          loadMergeRules_loop (umap_insert ranks (l, r) n) (n + 1) lines))
      else loadMergeRules_loop ranks (n + 1) lines)"

definition loadMergeRules :: "infile \<Rightarrow> BPE \<Rightarrow> error + BPE" where
  "loadMergeRules f T =
     and_then (loadMergeRules_loop Map.empty 0 (getlines f)) (\<lambda>ranks.
       Inr (T\<lparr>m_bpeRanks := ranks\<rparr>))"

text \<open>
  \<^verbatim>\<open>std::stoi\<close> is library code, modelled from the C++ standard (it calls \<^verbatim>\<open>strtol\<close> with
  base 10): leading white space is skipped, an optional sign and the longest run of
  decimal digits are read, what follows is ignored; no digit raises
  \<^verbatim>\<open>std::invalid_argument\<close>, a value outside the 32-bit \<^verbatim>\<open>int\<close> raises \<^verbatim>\<open>std::out_of_range\<close>.
\<close>

definition is_space_char :: "char \<Rightarrow> bool" where
  "is_space_char c = is_space (of_char c)"

definition is_digit_char :: "char \<Rightarrow> bool" where
  "is_digit_char c = is_digit (of_char c)"

definition digits_value :: "string \<Rightarrow> int" where
  "digits_value ds = foldl (\<lambda>a c. 10 * a + (int (of_char c) - 48)) 0 ds"

definition stoi :: "string \<Rightarrow> error + int" where
  "stoi str =
     (let s1 = dropWhile is_space_char str;
          neg = (s1 \<noteq> [] \<and> hd s1 = CHR ''-'');
          s2 = (if s1 \<noteq> [] \<and> (hd s1 = CHR ''-'' \<or> hd s1 = CHR ''+'') then tl s1 else s1);
          ds = takeWhile is_digit_char s2;
          v = (if neg then - digits_value ds else digits_value ds)
      in if ds = [] then Inl InvalidArgument
         else if v < - (2 ^ 31) \<or> 2 ^ 31 - 1 < v then Inl OutOfRange
         else Inr v)"

text \<open>
  The loop of \<^verbatim>\<open>loadVocab\<close>: an even line is remembered as the token, an odd line is parsed
  and both tables get an \<^verbatim>\<open>insert\<close>.
\<close>

fun loadVocab_loop ::
  "(string \<rightharpoonup> int) \<times> (int \<rightharpoonup> string) \<Rightarrow> string \<Rightarrow> int \<Rightarrow> string list
     \<Rightarrow> error + (string \<rightharpoonup> int) \<times> (int \<rightharpoonup> string)" where
  "loadVocab_loop tabs token n [] = Inr tabs"
| "loadVocab_loop tabs token n (line # lines) =
     (if n mod 2 = 0 then loadVocab_loop tabs line (n + 1) lines
      else and_then (stoi line) (\<lambda>v.
             loadVocab_loop (umap_insert (fst tabs) token v, umap_insert (snd tabs) v token)
               token (n + 1) lines))"

definition loadVocab :: "infile \<Rightarrow> BPE \<Rightarrow> error + BPE" where
  "loadVocab f T =
     and_then (loadVocab_loop (Map.empty, Map.empty) [] 0 (getlines f)) (\<lambda>tabs.
       Inr (T\<lparr>m_t2i := fst tabs, m_i2t := snd tabs\<rparr>))"

text \<open>The constructor \<^verbatim>\<open>BPE(mergesFile, vocabsFile)\<close>: five \<^verbatim>\<open>clear()\<close>s, then the three loads.\<close>

definition cleared :: BPE where
  "cleared = \<lparr>m_bpeRanks = Map.empty, m_b2u = Map.empty, m_u2b = Map.empty,
              m_t2i = Map.empty, m_i2t = Map.empty\<rparr>"

definition construct :: "infile \<Rightarrow> infile \<Rightarrow> error + BPE" where
  "construct mergesFile vocabsFile =
     and_then (loadMergeRules mergesFile cleared) (\<lambda>T1.
     and_then (loadVocab vocabsFile T1) (\<lambda>T2.
       Inr (bytesToUnicode T2)))"

text \<open>
  The start of \<^verbatim>\<open>main\<close> (src/Targets/GPT2/main.cpp): \<^verbatim>\<open>validateFileExistence\<close> of both files,
  which prints a message and calls \<^verbatim>\<open>exit(-1)\<close> when \<^verbatim>\<open>std::filesystem::exists\<close> is false,
  then the construction of the tokenizer.
\<close>

datatype startup = Exited int | Raised error | Started BPE

definition validateFileExistence :: "infile \<Rightarrow> bool" where
  "validateFileExistence f = (f \<noteq> Missing)"

definition main_startup :: "infile \<Rightarrow> infile \<Rightarrow> startup" where
  "main_startup mergesFile vocabsFile =
     (if \<not> validateFileExistence mergesFile then Exited (-1)
      else if \<not> validateFileExistence vocabsFile then Exited (-1)
      else (case construct mergesFile vocabsFile of Inl e \<Rightarrow> Raised e | Inr T \<Rightarrow> Started T))"

section \<open>What \<^verbatim>\<open>loadVocab\<close> does with a repeated token or id\<close>

text \<open>The (token line, id line) pairs of a vocabulary file, in file order.\<close>

fun vocab_entries :: "string list \<Rightarrow> (string \<times> string) list" where
  "vocab_entries (t # i # rest) = (t, i) # vocab_entries rest"
| "vocab_entries _ = []"

definition parsed_entries :: "string list \<Rightarrow> (string \<times> int) list" where
  "parsed_entries lines = map (\<lambda>(t, i). (t, projr (stoi i))) (vocab_entries lines)"

definition swapped :: "('a \<times> 'b) list \<Rightarrow> ('b \<times> 'a) list" where
  "swapped es = map (\<lambda>(a, b). (b, a)) es"

lemmas stoi_eval = stoi_def is_space_char_def is_digit_char_def is_space_def is_digit_def
  digits_value_def Let_def

lemma umap_insert_map_add:
  "map_of es ++ umap_insert m k v = map_of ((k, v) # es) ++ m"
  by (auto simp: umap_insert_def map_add_def fun_eq_iff split: option.splits)

lemma swapped_Cons [simp]: "swapped ((a, b) # es) = (b, a) # swapped es"
  by (simp add: swapped_def)

lemma parsed_entries_Cons:
  "parsed_entries (t # i # lines) = (t, projr (stoi i)) # parsed_entries lines"
  by (simp add: parsed_entries_def)

lemma loadVocab_loop_map_of:
  "loadVocab_loop tabs token n lines = Inr tabs' \<Longrightarrow>
     tabs' =
       (map_of (parsed_entries (if n mod 2 = 0 then lines else token # lines)) ++ fst tabs,
        map_of (swapped (parsed_entries (if n mod 2 = 0 then lines else token # lines)))
          ++ snd tabs)"
proof (induction lines arbitrary: tabs token n)
  case Nil
  then show ?case by (simp add: parsed_entries_def swapped_def)
next
  case (Cons line lines)
  show ?case
  proof (cases "n mod 2 = 0")
    case True
    then have "(n + 1) mod 2 \<noteq> 0" by presburger
    with Cons.IH [of tabs line "n + 1"] Cons.prems True show ?thesis by simp
  next
    case False
    then have even: "(n + 1) mod 2 = 0" by presburger
    from Cons.prems False obtain v where v: "stoi line = Inr v"
      and loop: "loadVocab_loop (umap_insert (fst tabs) token v, umap_insert (snd tabs) v token)
                   token (n + 1) lines = Inr tabs'"
      by (auto simp: and_then_def split: sum.splits)
    have "tabs' = (map_of (parsed_entries lines) ++ umap_insert (fst tabs) token v,
                   map_of (swapped (parsed_entries lines)) ++ umap_insert (snd tabs) v token)"
      using Cons.IH [OF loop] even by simp
    then show ?thesis
      using False v by (simp only: umap_insert_map_add parsed_entries_Cons swapped_Cons
          sum.sel if_False)
  qed
qed

lemma map_of_first:
  "k < length es \<Longrightarrow> (\<forall>j<k. fst (es ! j) \<noteq> fst (es ! k)) \<Longrightarrow>
     map_of es (fst (es ! k)) = Some (snd (es ! k))"
proof (induction es arbitrary: k)
  case Nil
  then show ?case by simp
next
  case (Cons e es)
  show ?case
  proof (cases k)
    case 0
    then show ?thesis by (cases e) simp
  next
    case (Suc k')
    with Cons.prems have "fst e \<noteq> fst ((e # es) ! k)" by (metis nth_Cons_0 zero_less_Suc)
    moreover from Cons.prems Suc have "\<forall>j<k'. fst (es ! j) \<noteq> fst (es ! k')"
      by (metis Suc_less_eq nth_Cons_Suc)
    ultimately show ?thesis using Cons.IH [of k'] Cons.prems Suc by (cases e) auto
  qed
qed

text \<open>
  Claim C3 as the code has it. \<^verbatim>\<open>unordered_map::insert\<close> does not replace an existing entry,
  so when loading succeeds each table is the map of the file's entries in which the
  first entry for a key counts: a token read before has kept its id, an id read before
  has kept its token. The two tables decide this independently of each other.
\<close>

theorem loadVocab_first_wins:
  assumes "loadVocab (Content lines) T = Inr T'"
  shows "m_t2i T' = map_of (parsed_entries lines)
       \<and> m_i2t T' = map_of (swapped (parsed_entries lines))
       \<and> (\<forall>k<length (parsed_entries lines).
            (\<forall>j<k. fst (parsed_entries lines ! j) \<noteq> fst (parsed_entries lines ! k)) \<longrightarrow>
              m_t2i T' (fst (parsed_entries lines ! k)) = Some (snd (parsed_entries lines ! k)))
       \<and> (\<forall>k<length (parsed_entries lines).
            (\<forall>j<k. snd (parsed_entries lines ! j) \<noteq> snd (parsed_entries lines ! k)) \<longrightarrow>
              m_i2t T' (snd (parsed_entries lines ! k)) = Some (fst (parsed_entries lines ! k)))"
proof -
  from assms obtain tabs where
    loop: "loadVocab_loop (Map.empty, Map.empty) [] 0 lines = Inr tabs"
    and T': "T' = T\<lparr>m_t2i := fst tabs, m_i2t := snd tabs\<rparr>"
    by (auto simp: loadVocab_def getlines_def and_then_def split: sum.splits)
  from loadVocab_loop_map_of [OF loop] T'
  have t2i: "m_t2i T' = map_of (parsed_entries lines)"
    and i2t: "m_i2t T' = map_of (swapped (parsed_entries lines))"
    by simp_all
  have sw: "fst (swapped es ! k) = snd (es ! k) \<and> snd (swapped es ! k) = fst (es ! k)"
    if "k < length es" for es :: "(string \<times> int) list" and k
    using that by (simp add: swapped_def case_prod_unfold)
  have "m_i2t T' (snd (parsed_entries lines ! k)) = Some (fst (parsed_entries lines ! k))"
    if k: "k < length (parsed_entries lines)"
      and first: "\<forall>j<k. snd (parsed_entries lines ! j) \<noteq> snd (parsed_entries lines ! k)" for k
  proof -
    have "\<forall>j<k. fst (swapped (parsed_entries lines) ! j) \<noteq> fst (swapped (parsed_entries lines) ! k)"
      using first k sw by simp
    from map_of_first [OF _ this] k sw [OF k] show ?thesis
      by (simp add: i2t swapped_def)
  qed
  then show ?thesis using t2i i2t map_of_first [of _ "parsed_entries lines"] by simp
qed

theorem loadVocab_first_wins_witness:
  "loadVocab (Content [''a'', ''1'', ''a'', ''2'', ''b'', ''1'']) cleared
     = Inr (cleared\<lparr>m_t2i := [''a'' \<mapsto> 1, ''b'' \<mapsto> 1], m_i2t := [1 \<mapsto> ''a'', 2 \<mapsto> ''a'']\<rparr>)
   \<and> m_t2i (cleared\<lparr>m_t2i := [''a'' \<mapsto> 1, ''b'' \<mapsto> 1], m_i2t := [1 \<mapsto> ''a'', 2 \<mapsto> ''a'']\<rparr>)
       = map_of (parsed_entries [''a'', ''1'', ''a'', ''2'', ''b'', ''1''])"
proof -
  have l: "loadVocab (Content [''a'', ''1'', ''a'', ''2'', ''b'', ''1'']) cleared
     = Inr (cleared\<lparr>m_t2i := [''a'' \<mapsto> 1, ''b'' \<mapsto> 1], m_i2t := [1 \<mapsto> ''a'', 2 \<mapsto> ''a'']\<rparr>)"
    by (simp add: loadVocab_def getlines_def and_then_def stoi_eval umap_insert_def cleared_def
        fun_upd_twist)
  from loadVocab_first_wins [OF l] l show ?thesis by blast
qed

text \<open>
  The claim as stated fails: in the file \<^verbatim>\<open>a 1 a 2 b 1\<close> (one item per line) the token
  \<^verbatim>\<open>a\<close> comes with ids 1 and 2 and the id 1 with tokens \<^verbatim>\<open>a\<close> and \<^verbatim>\<open>b\<close>; after loading,
  \<^verbatim>\<open>a\<close> has the earlier id 1 and the id 1 has the earlier token \<^verbatim>\<open>a\<close>.
\<close>

theorem loadVocab_later_does_not_overwrite:
  "loadVocab (Content [''a'', ''1'', ''a'', ''2'', ''b'', ''1'']) cleared
     = Inr (cleared\<lparr>m_t2i := [''a'' \<mapsto> 1, ''b'' \<mapsto> 1], m_i2t := [1 \<mapsto> ''a'', 2 \<mapsto> ''a'']\<rparr>)
   \<and> m_t2i (projr (loadVocab (Content [''a'', ''1'', ''a'', ''2'', ''b'', ''1'']) cleared)) ''a''
       = Some 1
   \<and> m_i2t (projr (loadVocab (Content [''a'', ''1'', ''a'', ''2'', ''b'', ''1'']) cleared)) 1
       = Some ''a''"
  by (simp add: loadVocab_def getlines_def and_then_def stoi_eval umap_insert_def cleared_def
      fun_upd_twist)

section \<open>A file that is missing or cannot be read\<close>

lemma loadMergeRules_no_file:
  "f = Missing \<or> f = Unreadable \<Longrightarrow> loadMergeRules f T = Inr (T\<lparr>m_bpeRanks := Map.empty\<rparr>)"
  by (auto simp: loadMergeRules_def getlines_def and_then_def)

lemma loadVocab_no_file:
  "f = Missing \<or> f = Unreadable \<Longrightarrow>
     loadVocab f T = Inr (T\<lparr>m_t2i := Map.empty, m_i2t := Map.empty\<rparr>)"
  by (auto simp: loadVocab_def getlines_def and_then_def)

lemma load_as_empty:
  "f = Missing \<or> f = Unreadable \<Longrightarrow> loadMergeRules f T = loadMergeRules (Content []) T"
  "f = Missing \<or> f = Unreadable \<Longrightarrow> loadVocab f T = loadVocab (Content []) T"
  by (auto simp: loadMergeRules_def loadVocab_def getlines_def)

text \<open>
  Claim C4 as the code has it. Neither load function looks at the state of the stream, so
  a file that is missing or unreadable raises nothing: the load returns normally with
  the table(s) it fills left empty, and the constructor does exactly what it does for an
  empty file. Only \<^verbatim>\<open>main\<close> stops on a missing file, before it constructs the tokenizer;
  a file that exists but cannot be read passes that check, and the tokenizer starts with
  empty tables.
\<close>

theorem construct_without_file:
  "(mf = Missing \<or> mf = Unreadable \<longrightarrow>
      loadMergeRules mf T = Inr (T\<lparr>m_bpeRanks := Map.empty\<rparr>)
      \<and> construct mf vf = construct (Content []) vf)
   \<and> (vf = Missing \<or> vf = Unreadable \<longrightarrow>
      loadVocab vf T = Inr (T\<lparr>m_t2i := Map.empty, m_i2t := Map.empty\<rparr>)
      \<and> construct mf vf = construct mf (Content []))
   \<and> (mf = Missing \<or> vf = Missing \<longrightarrow> main_startup mf vf = Exited (-1))
   \<and> main_startup Unreadable Unreadable = Started (bytesToUnicode cleared)"
proof -
  have "main_startup Unreadable Unreadable = Started (bytesToUnicode cleared)"
    by (simp add: main_startup_def validateFileExistence_def construct_def
        loadMergeRules_no_file loadVocab_no_file and_then_def cleared_def)
  then show ?thesis
    using loadMergeRules_no_file [of mf T] loadVocab_no_file [of vf T]
      load_as_empty(1) [of mf cleared] load_as_empty(2) [of vf]
    by (auto simp: construct_def main_startup_def validateFileExistence_def)
qed

theorem construct_without_file_witness:
  "loadMergeRules Missing cleared = Inr (cleared\<lparr>m_bpeRanks := Map.empty\<rparr>)
   \<and> construct Missing Unreadable = construct (Content []) Unreadable
   \<and> loadVocab Unreadable cleared = Inr (cleared\<lparr>m_t2i := Map.empty, m_i2t := Map.empty\<rparr>)
   \<and> construct Missing Unreadable = construct Missing (Content [])
   \<and> main_startup Missing Unreadable = Exited (-1)"
  using construct_without_file [of Missing cleared Unreadable] by blast

text \<open>
  The claim as stated fails: with both files missing the constructor raises nothing and
  returns a tokenizer whose merge-rule and vocabulary tables are empty.
\<close>

theorem construct_missing_files_succeeds:
  "construct Missing Missing = Inr (bytesToUnicode cleared)"
  by (simp add: construct_def loadMergeRules_no_file loadVocab_no_file and_then_def cleared_def)

section \<open>The tables are only read: \<^verbatim>\<open>bpe\<close> and \<^verbatim>\<open>tokenize\<close>\<close>

lemma snd_bpe [simp]: "snd (bpe T token) = T"
  by (simp add: bpe_def split: prod.splits)

lemma snd_tokenize_loop [simp]: "snd (tokenize_loop T ws result) = T"
proof (induction T ws result rule: tokenize_loop.induct)
  case (1 T ws result)
  show ?case
  proof (cases "regex_search ws")
    case None
    then show ?thesis by (subst tokenize_loop.simps) simp
  next
    case (Some p)
    obtain wtoken rest where p: "p = (wtoken, rest)" by (cases p)
    show ?thesis
    proof (cases "byteEncodeToken T (wstringToUTF8 wtoken)")
      case (Inl e)
      with Some p show ?thesis by (subst tokenize_loop.simps) simp
    next
      case (Inr enc)
      obtain syms T' where b: "bpe T enc = (syms, T')" by (cases "bpe T enc")
      then have "T' = T" using snd_bpe [of T enc] by simp
      with "1.IH" [OF Some p [symmetric] Inr b [symmetric]] Some p Inr b show ?thesis
        by (subst tokenize_loop.simps) simp
    qed
  qed
qed

lemma snd_tokenize [simp]: "snd (tokenize T text result) = T"
  by (simp add: tokenize_def split: sum.splits)

text \<open>The symbols \<^verbatim>\<open>bpe\<close> appends for a token, and the tokens \<^verbatim>\<open>tokenize\<close> appends for a text.\<close>

definition bpe_symbols :: "BPE \<Rightarrow> wstring \<Rightarrow> wstring list" where
  "bpe_symbols T token = fst (bpe T token)"

definition tokens_of :: "BPE \<Rightarrow> string \<Rightarrow> error + string list" where
  "tokens_of T text = fst (tokenize T text [])"

lemma bpe_eq: "bpe T token = (bpe_symbols T token, T)"
  by (simp add: bpe_symbols_def prod_eq_iff)

lemma tokenize_loop_unfold:
  "tokenize_loop T ws result =
     (case regex_search ws of
        None \<Rightarrow> (Inr result, T)
      | Some (wtoken, rest) \<Rightarrow>
          (case byteEncodeToken T (wstringToUTF8 wtoken) of
             Inl e \<Rightarrow> (Inl e, T)
           | Inr enc \<Rightarrow>
               tokenize_loop T rest (result @ map wstringToUTF8 (bpe_symbols T enc))))"
  by (subst tokenize_loop.simps) (simp add: bpe_eq split: option.splits sum.splits)

lemma tokenize_loop_acc:
  "tokenize_loop T ws result = (map_sum id ((@) result) (fst (tokenize_loop T ws [])), T)"
proof (induction ws arbitrary: result rule: length_induct)
  case (1 ws)
  show ?case
  proof (cases "regex_search ws")
    case None
    then show ?thesis by (simp add: tokenize_loop_unfold [of T ws])
  next
    case (Some p)
    obtain wtoken rest where p: "p = (wtoken, rest)" by (cases p)
    with Some have len: "length rest < length ws" by (simp add: regex_search_shorter)
    show ?thesis
    proof (cases "byteEncodeToken T (wstringToUTF8 wtoken)")
      case (Inl e)
      with Some p show ?thesis by (simp add: tokenize_loop_unfold [of T ws])
    next
      case (Inr enc)
      let ?X = "map wstringToUTF8 (bpe_symbols T enc)"
      have a: "tokenize_loop T rest (result @ ?X)
                 = (map_sum id ((@) (result @ ?X)) (fst (tokenize_loop T rest [])), T)"
        using 1 len by blast
      have b: "tokenize_loop T rest ?X
                 = (map_sum id ((@) ?X) (fst (tokenize_loop T rest [])), T)"
        using 1 len by blast
      show ?thesis
        using Some p Inr a b
        by (cases "fst (tokenize_loop T rest [])") (simp_all add: tokenize_loop_unfold [of T ws])
    qed
  qed
qed

lemma tokenize_acc:
  "tokenize T text result = (map_sum id ((@) result) (tokens_of T text), T)"
  unfolding tokens_of_def tokenize_def
  by (cases "utf8ToWString text") (simp_all add: tokenize_loop_acc [of T _ result])


section \<open>The marker loop of \<^verbatim>\<open>encode\<close>\<close>

lemma encode_loop_unfold:
  "encode_loop T str eot s i tokens =
     (case i of
        None \<Rightarrow>
          (case substr_from str s of
             Inl e \<Rightarrow> Some (Inl e, T)
           | Inr seg \<Rightarrow> Some (map_sum id ((@) tokens) (tokens_of T seg), T))
      | Some i' \<Rightarrow>
          (case substr str s (i' - s) of
             Inl e \<Rightarrow> Some (Inl e, T)
           | Inr seg \<Rightarrow>
               (case tokens_of T seg of
                  Inl e \<Rightarrow> Some (Inl e, T)
                | Inr ts \<Rightarrow>
                    encode_loop T str eot (i' + length eot)
                      (string_find str eot (i' + length eot)) (tokens @ ts @ [eot]))))"
  by (subst encode_loop.simps)
     (simp add: tokenize_acc [of T _ tokens] split: option.splits sum.splits)

lemma find_from_bounds:
  "find_from pat cs pos = Some i \<Longrightarrow> pos \<le> i \<and> i + length pat \<le> pos + length cs"
proof (induction cs arbitrary: pos)
  case Nil
  then show ?case by (simp split: if_splits)
next
  case (Cons c cs)
  then show ?case
    using prefix_length_le [of pat "c # cs"] by (fastforce split: if_splits)
qed

lemma string_find_bounds:
  "string_find str pat s = Some i \<Longrightarrow> s \<le> i \<and> i + length pat \<le> length str"
  using find_from_bounds [of pat "drop s str" s i]
  by (auto simp: string_find_def split: if_splits)

lemma find_from_empty: "find_from [] cs pos = Some pos"
  by (cases cs) simp_all

lemma encode_loop_returns:
  assumes "eot \<noteq> []"
  shows "s \<le> length str \<Longrightarrow> \<exists>r. encode_loop T str eot s (string_find str eot s) tokens = Some r"
proof (induction "length str - s" arbitrary: s tokens rule: less_induct)
  case less
  show ?case
  proof (cases "string_find str eot s")
    case None
    with less.prems show ?thesis
      by (simp add: encode_loop_unfold [of T str eot s] substr_from_def)
  next
    case (Some i)
    then have b: "s \<le> i" "i + length eot \<le> length str"
      using string_find_bounds by blast+
    with assms have "length str - (i + length eot) < length str - s"
      by (cases eot) auto
    from less.hyps [OF this] b
    have "\<exists>r. encode_loop T str eot (i + length eot)
                (string_find str eot (i + length eot)) tokens' = Some r" for tokens'
      by simp
    with Some less.prems show ?thesis
      by (simp add: encode_loop_unfold [of T str eot s] substr_def split: sum.splits)
  qed
qed

lemma tokenize_Nil [simp]: "tokenize T [] result = (Inr result, T)"
  by (simp add: tokenize_def tokenize_loop_unfold [of T "[]"])

lemma string_find_empty: "s \<le> length str \<Longrightarrow> string_find str [] s = Some s"
  by (simp add: string_find_def find_from_empty)

lemma encode_loop_empty_marker:
  assumes "encode_loop T str eot s i tokens = Some y"
  shows "\<not> (eot = [] \<and> i = Some s \<and> s \<le> length str)"
proof (rule encode_loop.raw_induct [OF _ assms,
      where P = "\<lambda>T str eot s i tokens y. \<not> (eot = [] \<and> i = Some s \<and> s \<le> length str)"],
    goal_cases)
  case (1 f T str eot s i tokens y)
  show ?case
  proof
    assume a: "eot = [] \<and> i = Some s \<and> s \<le> length str"
    with 1(2) have "f T str eot s (Some s) (tokens @ [eot]) = Some y"
      by (simp add: substr_def string_find_empty)
    from 1(1) [OF this] a show False
      by simp
  qed
qed

lemma encode_never_returns: "encode T str [] = None"
proof (cases "encode_loop T str [] 0 (string_find str [] 0) []")
  case None
  then show ?thesis by (simp add: encode_def)
next
  case (Some y)
  from encode_loop_empty_marker [OF this] show ?thesis
    by (simp add: string_find_empty)
qed

text \<open>
  Claim C10. With a non-empty marker \<^verbatim>\<open>encode\<close> returns (a value or an exception) for
  every text and every state of the tables: a match at \<open>i\<close> found from position \<open>s\<close> has
  \<open>s \<le> i\<close> and lies inside the text, so the next search position \<open>i + length eot\<close> is
  strictly greater than \<open>s\<close>. With the empty marker \<^verbatim>\<open>encode\<close> returns for no text: the
  search finds the empty marker at the search position itself and the position never
  advances.
\<close>

theorem encode_terminates_iff_marker_nonempty:
  "(eot \<noteq> [] \<longrightarrow> (\<exists>r. encode T str eot = Some r))
   \<and> (eot \<noteq> [] \<longrightarrow> (\<forall>s i. string_find str eot s = Some i \<longrightarrow>
          s < i + length eot \<and> i + length eot \<le> length str))
   \<and> encode T str [] = None
   \<and> (\<forall>s \<le> length str. string_find str [] s = Some s)"
proof -
  have "\<exists>r. encode T str eot = Some r" if "eot \<noteq> []"
    using encode_loop_returns [OF that, of 0 str T "[]"]
    by (auto simp: encode_def split: sum.splits prod.splits)
  moreover have "s < i + length eot \<and> i + length eot \<le> length str"
    if "eot \<noteq> []" "string_find str eot s = Some i" for s i
    using string_find_bounds [OF that(2)] that(1) by (cases eot) auto
  ultimately show ?thesis
    by (simp add: encode_never_returns string_find_empty)
qed


theorem encode_terminates_iff_marker_nonempty_witness:
  "endoftext \<noteq> [] \<and> (\<exists>r. encode cleared ''a b'' endoftext = Some r)
   \<and> string_find ''x<|endoftext|>y'' endoftext 0 = Some 1
   \<and> 0 < 1 + length endoftext \<and> 1 + length endoftext \<le> length ''x<|endoftext|>y''
   \<and> encode cleared ''a b'' [] = None"
proof -
  have ne: "endoftext \<noteq> []" by (simp add: endoftext_def)
  have f: "string_find ''x<|endoftext|>y'' endoftext 0 = Some 1"
    by (simp add: string_find_def endoftext_def)
  from encode_terminates_iff_marker_nonempty [of endoftext cleared "''a b''"]
    encode_terminates_iff_marker_nonempty [of endoftext cleared "''x<|endoftext|>y''"] ne f
  show ?thesis by (simp add: endoftext_def)
qed

section \<open>Splitting on the end-of-text marker\<close>

text \<open>
  The segments of a text between the occurrences of a non-empty marker, found from left
  to right without overlap; this is what the specification calls splitting the text on
  every literal occurrence of the marker.
\<close>

function split_on :: "string \<Rightarrow> string \<Rightarrow> string list" where
  "split_on eot [] = [[]]"
| "split_on eot (c # cs) =
     (if eot \<noteq> [] \<and> prefix eot (c # cs)
      then [] # split_on eot (drop (length eot) (c # cs))
      else (case split_on eot cs of
              [] \<Rightarrow> [[c]]
            | seg # segs \<Rightarrow> (c # seg) # segs))"
  by pat_completeness auto
termination
  by (relation "measure (\<lambda>(eot, cs). length cs)") (auto simp: neq_Nil_conv)

text \<open>
  The tokens of a list of segments as the specification describes them: each segment is
  tokenized on its own, in order, and the marker itself stands between the tokens of two
  neighbouring segments. The first segment that fails gives the error.
\<close>

fun segment_tokens :: "BPE \<Rightarrow> string \<Rightarrow> string list \<Rightarrow> error + string list" where
  "segment_tokens T eot [] = Inr []"
| "segment_tokens T eot [seg] = tokens_of T seg"
| "segment_tokens T eot (seg # segs) =
     and_then (tokens_of T seg) (\<lambda>ts.
     and_then (segment_tokens T eot segs) (\<lambda>rest. Inr (ts @ [eot] @ rest)))"

lemma split_on_nonempty: "split_on eot cs \<noteq> []"
  by (induction eot cs rule: split_on.induct) (auto split: list.splits)

lemma split_on_no_match:
  "eot \<noteq> [] \<Longrightarrow> find_from eot cs pos = None \<Longrightarrow> split_on eot cs = [cs]"
  by (induction cs arbitrary: pos) (auto split: if_splits)

lemma split_on_match:
  "eot \<noteq> [] \<Longrightarrow> find_from eot cs pos = Some i \<Longrightarrow>
     split_on eot cs = take (i - pos) cs # split_on eot (drop (i - pos + length eot) cs)"
proof (induction cs arbitrary: pos)
  case Nil
  then show ?case by simp
next
  case (Cons c cs)
  show ?case
  proof (cases "prefix eot (c # cs)")
    case True
    with Cons.prems show ?thesis by simp
  next
    case False
    with Cons.prems have f: "find_from eot cs (Suc pos) = Some i" by simp
    then have "Suc pos \<le> i" using find_from_bounds by blast
    then have "i - pos = Suc (i - Suc pos)" by simp
    with Cons.IH [OF Cons.prems(1) f] False show ?thesis by simp
  qed
qed

lemma encode_loop_segments:
  assumes "eot \<noteq> []"
  shows "s \<le> length str \<Longrightarrow>
    encode_loop T str eot s (string_find str eot s) tokens =
      Some (map_sum id ((@) tokens) (segment_tokens T eot (split_on eot (drop s str))), T)"
proof (induction "length str - s" arbitrary: s tokens rule: less_induct)
  case less
  show ?case
  proof (cases "string_find str eot s")
    case None
    with less.prems have "split_on eot (drop s str) = [drop s str]"
      using split_on_no_match [OF assms, of "drop s str" s] by (simp add: string_find_def)
    with None less.prems show ?thesis
      by (simp add: encode_loop_unfold [of T str eot s] substr_from_def)
  next
    case (Some i)
    then have b: "s \<le> i" "i + length eot \<le> length str"
      using string_find_bounds by blast+
    with assms have "length str - (i + length eot) < length str - s"
      by (cases eot) auto
    from less.hyps [OF this] b
    have IH: "encode_loop T str eot (i + length eot)
                (string_find str eot (i + length eot)) tokens' =
              Some (map_sum id ((@) tokens')
                (segment_tokens T eot (split_on eot (drop (i + length eot) str))), T)" for tokens'
      by simp
    from Some less.prems have "find_from eot (drop s str) s = Some i"
      by (simp add: string_find_def)
    from split_on_match [OF assms this] b
    have sp: "split_on eot (drop s str) =
                take (i - s) (drop s str) # split_on eot (drop (i + length eot) str)"
      by (simp add: add.commute add.left_commute)
    obtain seg segs where ss: "split_on eot (drop (i + length eot) str) = seg # segs"
      using split_on_nonempty [of eot "drop (i + length eot) str"] by (cases "split_on eot (drop (i + length eot) str)") auto
    show ?thesis
      using Some less.prems sp ss IH
      by (cases "tokens_of T (take (i - s) (drop s str))";
          cases "segment_tokens T eot (seg # segs)")
         (simp_all add: encode_loop_unfold [of T str eot s] substr_def and_then_def)
  qed
qed


lemma lookup_ids_append:
  "lookup_ids T (a @ b) =
     and_then (lookup_ids T a) (\<lambda>x. and_then (lookup_ids T b) (\<lambda>y. Inr (x @ y)))"
  by (induction a) (auto simp: and_then_def split: sum.splits)

lemma encode_eq_segments:
  assumes "eot \<noteq> []"
  shows "encode T str eot =
           Some (and_then (segment_tokens T eot (split_on eot str)) (lookup_ids T), T)"
  using encode_loop_segments [OF assms, of 0 str T "[]"]
  by (cases "segment_tokens T eot (split_on eot str)") (simp_all add: encode_def and_then_def)

lemma split_on_hello_world:
  "split_on endoftext ''Hello<|endoftext|>World'' = [''Hello'', ''World'']"
  by (simp add: endoftext_def)

text \<open>
  Claim C8. For a non-empty marker, \<^verbatim>\<open>encode\<close> returns the ids of the tokens of the
  segments between the occurrences of the marker, each segment tokenized on its own and
  in order, with the marker string itself (looked up in \<^verbatim>\<open>m_t2i\<close> like any token, never
  byte-mapped or merged) between two neighbouring segments. For
  \<^verbatim>\<open>"Hello<|endoftext|>World"\<close> the segments are \<^verbatim>\<open>"Hello"\<close> and \<^verbatim>\<open>"World"\<close>, and the result is
  the ids of the tokens of \<^verbatim>\<open>"Hello"\<close>, the one id of the marker, and the ids of the tokens
  of \<^verbatim>\<open>"World"\<close>.
\<close>

theorem encode_splits_on_marker:
  assumes "eot \<noteq> []"
  shows "encode T str eot =
           Some (and_then (segment_tokens T eot (split_on eot str)) (lookup_ids T), T)
       \<and> split_on endoftext ''Hello<|endoftext|>World'' = [''Hello'', ''World'']
       \<and> encode T ''Hello<|endoftext|>World'' endoftext =
           Some (and_then (tokens_of T ''Hello'') (\<lambda>hello.
                 and_then (tokens_of T ''World'') (\<lambda>world.
                 and_then (lookup_ids T hello) (\<lambda>ids1.
                 and_then (umap_at (m_t2i T) endoftext) (\<lambda>e.
                 and_then (lookup_ids T world) (\<lambda>ids2. Inr (ids1 @ [e] @ ids2)))))), T)"
proof -
  have ne: "endoftext \<noteq> []" by (simp add: endoftext_def)
  have "encode T ''Hello<|endoftext|>World'' endoftext =
          Some (and_then (segment_tokens T endoftext [''Hello'', ''World'']) (lookup_ids T), T)"
    using encode_eq_segments [OF ne] split_on_hello_world by simp
  also have "and_then (segment_tokens T endoftext [''Hello'', ''World'']) (lookup_ids T) =
      and_then (tokens_of T ''Hello'') (\<lambda>hello.
      and_then (tokens_of T ''World'') (\<lambda>world.
      and_then (lookup_ids T hello) (\<lambda>ids1.
      and_then (umap_at (m_t2i T) endoftext) (\<lambda>e.
      and_then (lookup_ids T world) (\<lambda>ids2. Inr (ids1 @ [e] @ ids2))))))"
    by (cases "tokens_of T ''Hello''"; cases "tokens_of T ''World''")
       (auto simp: and_then_def lookup_ids_append split: sum.splits)
  finally show ?thesis
    using encode_eq_segments [OF assms] split_on_hello_world by simp
qed


section \<open>\<^verbatim>\<open>encode\<close> and \<^verbatim>\<open>decode\<close> leave the tables as they are\<close>

lemma snd_encode_loop:
  assumes "encode_loop T str eot s i tokens = Some y"
  shows "snd y = T"
proof (rule encode_loop.raw_induct [OF _ assms, where P = "\<lambda>T str eot s i tokens y. snd y = T"],
    goal_cases)
  case (1 f T str eot s i tokens y)
  show ?case
  proof (cases i)
    case None
    with 1(2) show ?thesis
      using snd_tokenize by (auto split: sum.splits)
  next
    case (Some i')
    show ?thesis
    proof (cases "substr str s (i' - s)")
      case (Inl e)
      with 1(2) Some show ?thesis by auto
    next
      case (Inr seg)
      obtain r T' where t: "tokenize T seg tokens = (r, T')" by (cases "tokenize T seg tokens")
      then have T': "T' = T" using snd_tokenize [of T seg tokens] by simp
      show ?thesis
      proof (cases r)
        case (Inl e)
        with 1(2) Some Inr t T' show ?thesis by auto
      next
        case r: (Inr tokens')
        with 1(2) Some Inr t T'
        have "f T str eot (i' + length eot) (string_find str eot (i' + length eot))
                (tokens' @ [eot]) = Some y"
          by simp
        from 1(1) [OF this] show ?thesis .
      qed
    qed
  qed
qed

lemma snd_encode: "encode T str eot = Some (r, T') \<Longrightarrow> T' = T"
  using snd_encode_loop [of T str eot 0 "string_find str eot 0" "[]"]
  by (auto simp: encode_def split: option.splits sum.splits prod.splits)

section \<open>The naive greedy merge the slot array is compared with\<close>

text \<open>
  The second definition of the merge, after the words of the specification: the symbol
  sequence is a list; in each round the adjacent pairs are listed anew, the pair of the
  lowest rank is looked up (a pair without a rule has rank infinity and is never chosen;
  of several pairs of the lowest rank the leftmost is taken), and the two symbols are
  replaced by their concatenation; the merge ends when no adjacent pair has a rule.
\<close>

definition adjacent_pairs :: "wstring list \<Rightarrow> wpair list" where
  "adjacent_pairs syms = zip syms (tl syms)"

fun min_rank :: "(wpair \<rightharpoonup> int) \<Rightarrow> wpair list \<Rightarrow> int option" where
  "min_rank ranks [] = None"
| "min_rank ranks (p # ps) =
     (case ranks p of
        None \<Rightarrow> min_rank ranks ps
      | Some r \<Rightarrow> (case min_rank ranks ps of None \<Rightarrow> Some r | Some m \<Rightarrow> Some (min r m)))"

fun first_index :: "('a \<Rightarrow> bool) \<Rightarrow> 'a list \<Rightarrow> nat" where
  "first_index P [] = 0"
| "first_index P (x # xs) = (if P x then 0 else Suc (first_index P xs))"

definition best_pair :: "(wpair \<rightharpoonup> int) \<Rightarrow> wpair list \<Rightarrow> nat option" where
  "best_pair ranks ps =
     (case min_rank ranks ps of
        None \<Rightarrow> None
      | Some m \<Rightarrow> Some (first_index (\<lambda>p. ranks p = Some m) ps))"

definition merge_at :: "nat \<Rightarrow> wstring list \<Rightarrow> wstring list" where
  "merge_at k syms = take k syms @ [syms ! k @ syms ! Suc k] @ drop (k + 2) syms"

lemma min_rank_attained: "min_rank ranks ps = Some m \<Longrightarrow> \<exists>p\<in>set ps. ranks p = Some m"
proof (induction ps arbitrary: m)
  case Nil
  then show ?case by simp
next
  case (Cons p ps)
  then show ?case
    by (auto split: option.splits simp: min_def split: if_splits)
qed

lemma first_index_less: "\<exists>x\<in>set xs. P x \<Longrightarrow> first_index P xs < length xs"
  by (induction xs) auto

lemma best_pair_less: "best_pair ranks ps = Some k \<Longrightarrow> k < length ps"
  using min_rank_attained [of ranks ps] first_index_less [of ps]
  by (fastforce simp: best_pair_def split: option.splits)

lemma length_adjacent_pairs [simp]: "length (adjacent_pairs syms) = length syms - 1"
  by (simp add: adjacent_pairs_def)

lemma length_merge_at: "Suc k < length syms \<Longrightarrow> length (merge_at k syms) = length syms - 1"
  by (simp add: merge_at_def)

function naive_bpe :: "(wpair \<rightharpoonup> int) \<Rightarrow> wstring list \<Rightarrow> wstring list" where
  "naive_bpe ranks syms =
     (case best_pair ranks (adjacent_pairs syms) of
        None \<Rightarrow> syms
      | Some k \<Rightarrow> naive_bpe ranks (merge_at k syms))"
  by pat_completeness auto
termination
proof (relation "measure (\<lambda>(ranks, syms). length syms)", goal_cases)
  case 1
  show ?case by simp
next
  case (2 ranks syms k)
  then have "k < length syms - 1" using best_pair_less [of ranks "adjacent_pairs syms" k] by simp
  then show ?case by (simp add: length_merge_at)
qed

declare naive_bpe.simps [simp del]

section \<open>What the selection loop selects\<close>

text \<open>
  \<open>argmin_from s0 xs\<close> is the position the selection loop ends with when the scores of the
  slots it visits are \<open>xs\<close> and \<^verbatim>\<open>minScore\<close> starts at \<open>s0\<close>: the leftmost position of the
  least score, provided that score is below \<open>s0\<close>.
\<close>

fun argmin_from :: "int \<Rightarrow> int list \<Rightarrow> nat option" where
  "argmin_from s0 [] = None"
| "argmin_from s0 (x # xs) =
     (if x < s0 then (case argmin_from x xs of None \<Rightarrow> Some 0 | Some k \<Rightarrow> Some (Suc k))
      else map_option Suc (argmin_from s0 xs))"

lemma argmin_from_None: "argmin_from s0 xs = None \<Longrightarrow> \<forall>x\<in>set xs. s0 \<le> x"
  by (induction xs arbitrary: s0) (auto split: if_splits option.splits)

lemma argmin_from_Some:
  "argmin_from s0 xs = Some k \<Longrightarrow>
     k < length xs \<and> xs ! k < s0 \<and> (\<forall>j<length xs. xs ! k \<le> xs ! j) \<and> (\<forall>j<k. xs ! k < xs ! j)"
proof (induction xs arbitrary: s0 k)
  case Nil
  then show ?case by simp
next
  case (Cons x xs)
  show ?case
  proof (cases "x < s0")
    case True
    show ?thesis
    proof (cases "argmin_from x xs")
      case None
      with Cons.prems True have k: "k = 0" by simp
      from argmin_from_None [OF None] have "\<forall>j<length xs. x \<le> xs ! j" by simp
      with k True show ?thesis by (auto simp: nth_Cons')
    next
      case (Some k')
      with Cons.prems True have k: "k = Suc k'" by simp
      from Cons.IH [OF Some] k True show ?thesis
        by (auto simp: nth_Cons' less_Suc_eq_0_disj)
    qed
  next
    case False
    with Cons.prems obtain k' where k': "argmin_from s0 xs = Some k'" and k: "k = Suc k'"
      by auto
    from Cons.IH [OF k'] k False show ?thesis
      by (auto simp: nth_Cons' less_Suc_eq_0_disj)
  qed
qed

definition unmerged :: "nat \<Rightarrow> int set \<Rightarrow> int list" where
  "unmerged n merged = filter (\<lambda>i. i \<notin> merged) [0..int n - 1]"

lemma fold_select_filter:
  "fold (select_step ranks pairs merged) xs st
     = fold (select_step ranks pairs merged) (filter (\<lambda>i. i \<notin> merged) xs) st"
  by (induction xs arbitrary: st) (auto simp: select_step_def split: prod.splits)

lemma fold_select_argmin:
  "\<forall>x\<in>set us. x \<notin> merged \<Longrightarrow>
   fold (select_step ranks pairs merged) us (s0, t0) =
     (case argmin_from s0 (map (\<lambda>i. score ranks (pairs ! nat i)) us) of
        None \<Rightarrow> (s0, t0)
      | Some k \<Rightarrow> (score ranks (pairs ! nat (us ! k)), us ! k))"
proof (induction us arbitrary: s0 t0)
  case Nil
  then show ?case by simp
next
  case (Cons u us)
  then show ?case
    by (auto simp: select_step_def split: option.splits)
qed

lemma select_argmin:
  "select ranks pairs merged =
     (case argmin_from SSIZE_MAX
             (map (\<lambda>i. score ranks (pairs ! nat i)) (unmerged (length pairs) merged)) of
        None \<Rightarrow> (SSIZE_MAX, -1)
      | Some k \<Rightarrow> (score ranks (pairs ! nat (unmerged (length pairs) merged ! k)),
                   unmerged (length pairs) merged ! k))"
  unfolding select_def unmerged_def
  by (subst fold_select_filter, subst fold_select_argmin) simp_all

text \<open>
  The table has ranks below the sentinel \<^verbatim>\<open>max()\<close> that stands for a missing rule. A table
  that \<^verbatim>\<open>loadMergeRules\<close> has built is of this kind (\<open>loadMergeRules_ranks\<close> below).
\<close>

definition ranks_below_max :: "(wpair \<rightharpoonup> int) \<Rightarrow> bool" where
  "ranks_below_max ranks = (\<forall>p r. ranks p = Some r \<longrightarrow> r < SSIZE_MAX)"

lemma argmin_best_pair:
  assumes "ranks_below_max ranks"
  shows "s0 \<le> SSIZE_MAX \<Longrightarrow>
    argmin_from s0 (map (score ranks) ps) =
      (case min_rank ranks ps of
         None \<Rightarrow> None
       | Some m \<Rightarrow> if m < s0 then Some (first_index (\<lambda>p. ranks p = Some m) ps) else None)"
proof (induction ps arbitrary: s0)
  case Nil
  then show ?case by simp
next
  case (Cons p ps)
  show ?case
  proof (cases "ranks p")
    case None
    then have sc: "score ranks p = SSIZE_MAX" by (simp add: score_def)
    with Cons None show ?thesis by (auto split: option.splits)
  next
    case (Some r)
    then have sc: "score ranks p = r" and r: "r < SSIZE_MAX"
      using assms by (auto simp: score_def ranks_below_max_def simp del: split_paired_All)
    show ?thesis
    proof (cases "r < s0")
      case True
      from Cons.IH [of r] r
      have "argmin_from r (map (score ranks) ps) =
        (case min_rank ranks ps of None \<Rightarrow> None
         | Some m \<Rightarrow> if m < r then Some (first_index (\<lambda>p. ranks p = Some m) ps) else None)"
        by simp
      with True Some sc show ?thesis
        by (auto split: option.splits simp: min_def)
    next
      case False
      with Cons.IH [OF Cons.prems] Some sc show ?thesis
        by (auto split: option.splits simp: min_def)
    qed
  qed
qed

section \<open>The slot array and the symbol sequence it stands for\<close>

lemma set_unmerged: "set (unmerged n M) = {i. 0 \<le> i \<and> i < int n \<and> i \<notin> M}"
  by (auto simp: unmerged_def)

lemma sorted_unmerged: "sorted (unmerged n M)"
  by (simp add: unmerged_def sorted_wrt_filter)

lemma distinct_unmerged: "distinct (unmerged n M)"
  by (simp add: unmerged_def)

lemma left_loop_scan:
  "lo \<notin> M \<Longrightarrow> -1 \<le> lo \<Longrightarrow> lo \<le> j \<Longrightarrow> \<forall>i. lo < i \<and> i \<le> j \<longrightarrow> i \<in> M \<Longrightarrow> left_loop j M = lo"
proof (induction j M rule: left_loop.induct)
  case (1 j M)
  show ?case
  proof (cases "j = lo")
    case True
    with "1.prems"(1,2) show ?thesis by (subst left_loop.simps) simp
  next
    case False
    with "1.prems" have a: "- 1 \<le> j" and b: "\<not> j \<notin> M" and c: "lo \<le> j - 1" by auto
    from "1.prems"(4) have d: "\<forall>i. lo < i \<and> i \<le> j - 1 \<longrightarrow> i \<in> M" by auto
    have "left_loop (j - 1) M = lo"
      by (rule "1.IH" [OF a b "1.prems"(1,2) c d])
    with a b show ?thesis by (subst left_loop.simps) simp
  qed
qed

lemma right_loop_scan:
  "hi \<notin> M \<or> hi = cap \<Longrightarrow> hi \<le> cap \<Longrightarrow> j \<le> hi \<Longrightarrow> \<forall>i. j \<le> i \<and> i < hi \<longrightarrow> i \<in> M \<Longrightarrow>
     right_loop j cap M = hi"
proof (induction j cap M rule: right_loop.induct)
  case (1 j cap M)
  show ?case
  proof (cases "j = hi")
    case True
    with "1.prems"(1,2) show ?thesis by (subst right_loop.simps) auto
  next
    case False
    with "1.prems" have a: "j < cap" and b: "\<not> j \<notin> M" and c: "j + 1 \<le> hi" by auto
    from "1.prems"(4) have d: "\<forall>i. j + 1 \<le> i \<and> i < hi \<longrightarrow> i \<in> M" by auto
    have "right_loop (j + 1) cap M = hi"
      by (rule "1.IH" [OF a b "1.prems"(1,2) c d])
    with a b show ?thesis by (subst right_loop.simps) simp
  qed
qed

lemma map_nth_upto: "map (\<lambda>i. xs ! nat i) [0..int (length xs) - 1] = xs"
proof (induction xs rule: rev_induct)
  case Nil
  then show ?case by simp
next
  case (snoc x xs)
  have "[0..int (length (xs @ [x])) - 1] = [0..int (length xs) - 1] @ [int (length xs)]"
    using upto_rec2 [of 0 "int (length xs)"] by simp
  moreover have "map (\<lambda>i. (xs @ [x]) ! nat i) [0..int (length xs) - 1]
                   = map (\<lambda>i. xs ! nat i) [0..int (length xs) - 1]"
    by (rule map_cong) (auto simp: nth_append)
  ultimately show ?case using snoc by simp
qed

lemma sorted_le_last: "sorted xs \<Longrightarrow> x \<in> set xs \<Longrightarrow> x \<le> last (xs :: int list)"
  by (induction xs) auto

lemma sorted_hd_le: "sorted xs \<Longrightarrow> x \<in> set xs \<Longrightarrow> hd (xs :: int list) \<le> x"
  by (cases xs) auto

text \<open>
  A not yet merged slot \<open>t\<close> splits the list of the not yet merged slots into those to its
  left and those to its right; \<^verbatim>\<open>left\<close> and \<^verbatim>\<open>right\<close> find its neighbours in that list.
\<close>

lemma unmerged_split:
  assumes us: "unmerged n M = A @ t # B" and M: "\<forall>m\<in>M. 0 \<le> m"
  shows "0 \<le> t" "t < int n" "t \<notin> M" "\<forall>a\<in>set A. a < t" "\<forall>b\<in>set B. t < b"
    "unmerged n (insert t M) = A @ B"
    "left t M = (if A = [] then -1 else last A)"
    "left t (insert t M) = (if A = [] then -1 else last A)"
    "right t (int n) (insert t M) = (if B = [] then int n else hd B)"
proof -
  have t: "t \<in> set (unmerged n M)" using us by simp
  then show t0: "0 \<le> t" and tn: "t < int n" and tM: "t \<notin> M" by (auto simp: set_unmerged)
  have s: "sorted (A @ t # B)" and d: "distinct (A @ t # B)"
    using sorted_unmerged [of n M] distinct_unmerged [of n M] us by simp_all
  have inA: "0 \<le> a \<and> a < int n \<and> a \<notin> M" if "a \<in> set A" for a
  proof -
    from that have "a \<in> set (unmerged n M)" by (simp add: us)
    then show ?thesis by (simp add: set_unmerged)
  qed
  have inB: "0 \<le> b \<and> b < int n \<and> b \<notin> M" if "b \<in> set B" for b
  proof -
    from that have "b \<in> set (unmerged n M)" by (simp add: us)
    then show ?thesis by (simp add: set_unmerged)
  qed
  show A: "\<forall>a\<in>set A. a < t"
  proof
    fix a assume a: "a \<in> set A"
    with s have "a \<le> t" by (simp add: sorted_append)
    moreover from d a have "a \<noteq> t" by auto
    ultimately show "a < t" by linarith
  qed
  show B: "\<forall>b\<in>set B. t < b"
  proof
    fix b assume b: "b \<in> set B"
    with s have "t \<le> b" by (simp add: sorted_append)
    moreover from d b have "b \<noteq> t" by auto
    ultimately show "t < b" by linarith
  qed
  have "unmerged n (insert t M) = filter (\<lambda>i. i \<noteq> t) (unmerged n M)"
    by (auto simp: unmerged_def intro: filter_cong)
  also have "\<dots> = A @ B"
  proof -
    have "filter (\<lambda>i. i \<noteq> t) A = A" "filter (\<lambda>i. i \<noteq> t) B = B"
      using A B by (auto simp: filter_id_conv)
    then show ?thesis by (simp add: us)
  qed
  finally show "unmerged n (insert t M) = A @ B" .
  define lo where "lo = (if A = [] then -1 else last A)"
  have lo_set: "A \<noteq> [] \<Longrightarrow> lo \<in> set A" by (simp add: lo_def)
  have lo1: "-1 \<le> lo"
  proof (cases "A = []")
    case True
    then show ?thesis by (simp add: lo_def)
  next
    case False
    with lo_set inA [of lo] show ?thesis by simp
  qed
  have lo2: "lo \<le> t - 1"
  proof (cases "A = []")
    case True
    then show ?thesis using t0 by (simp add: lo_def)
  next
    case False
    with lo_set A have "lo < t" by blast
    then show ?thesis by simp
  qed
  have loM: "lo \<notin> M"
  proof (cases "A = []")
    case True
    then show ?thesis using M by (auto simp: lo_def)
  next
    case False
    with lo_set inA [of lo] show ?thesis by simp
  qed
  have between: "i \<in> M" if "lo < i" "i \<le> t - 1" for i
  proof (rule ccontr)
    assume "i \<notin> M"
    with that lo1 tn have "i \<in> set (unmerged n M)" by (simp add: set_unmerged)
    then have "i \<in> set A \<or> i = t \<or> i \<in> set B" by (auto simp: us)
    with that B have iA: "i \<in> set A" by force
    then have "A \<noteq> []" by auto
    moreover from s have "sorted A" by (simp add: sorted_append)
    ultimately have "i \<le> last A"
      using iA by (simp add: sorted_le_last)
    with that \<open>A \<noteq> []\<close> show False by (simp add: lo_def)
  qed
  show "left t M = (if A = [] then -1 else last A)"
    unfolding left_def lo_def [symmetric]
    by (rule left_loop_scan [OF loM lo1 lo2]) (use between in blast)
  have "lo \<noteq> t" using lo2 by simp
  then have loM': "lo \<notin> insert t M" using loM by simp
  show "left t (insert t M) = (if A = [] then -1 else last A)"
    unfolding left_def lo_def [symmetric]
    by (rule left_loop_scan [OF loM' lo1 lo2]) (use between in blast)
  define hi where "hi = (if B = [] then int n else hd B)"
  have hi_set: "B \<noteq> [] \<Longrightarrow> hi \<in> set B" by (simp add: hi_def)
  have hi1: "hi \<le> int n"
  proof (cases "B = []")
    case True
    then show ?thesis by (simp add: hi_def)
  next
    case False
    with hi_set inB [of hi] show ?thesis by simp
  qed
  have hi2: "t + 1 \<le> hi"
  proof (cases "B = []")
    case True
    then show ?thesis using tn by (simp add: hi_def)
  next
    case False
    with hi_set B have "t < hi" by blast
    then show ?thesis by simp
  qed
  have hiM: "hi \<notin> insert t M \<or> hi = int n"
  proof (cases "B = []")
    case True
    then show ?thesis by (simp add: hi_def)
  next
    case False
    with hi_set inB [of hi] hi2 show ?thesis by simp
  qed
  have above: "i \<in> insert t M" if "t + 1 \<le> i" "i < hi" for i
  proof (rule ccontr)
    assume "i \<notin> insert t M"
    with that t0 hi1 have "i \<in> set (unmerged n M)" by (simp add: set_unmerged)
    then have "i \<in> set A \<or> i = t \<or> i \<in> set B" by (auto simp: us)
    with that A have iB: "i \<in> set B" by force
    then have "B \<noteq> []" by auto
    moreover from s have "sorted B" by (simp add: sorted_append)
    ultimately have "hd B \<le> i"
      using iB by (simp add: sorted_hd_le)
    with that \<open>B \<noteq> []\<close> show False by (simp add: hi_def)
  qed
  show "right t (int n) (insert t M) = (if B = [] then int n else hd B)"
    unfolding right_def hi_def [symmetric]
    by (rule right_loop_scan [OF hiM hi1 hi2]) (use above in blast)
qed

lemma adjacent_pairs_simps [simp]:
  "adjacent_pairs [] = []" "adjacent_pairs [a] = []"
  "adjacent_pairs (a # b # xs) = (a, b) # adjacent_pairs (b # xs)"
  by (simp_all add: adjacent_pairs_def)

lemma adjacent_pairs_append:
  "adjacent_pairs (xs @ a # ys) = adjacent_pairs (xs @ [a]) @ adjacent_pairs (a # ys)"
proof (induction xs)
  case Nil
  then show ?case by simp
next
  case (Cons x xs)
  then show ?case by (cases xs) simp_all
qed

lemma adjacent_pairs_snoc:
  "xs \<noteq> [] \<Longrightarrow> adjacent_pairs (xs @ [a]) = adjacent_pairs xs @ [(last xs, a)]"
proof (induction xs)
  case Nil
  then show ?case by simp
next
  case (Cons x xs)
  then show ?case by (cases xs) simp_all
qed

lemma adjacent_pairs_Cons:
  "xs \<noteq> [] \<Longrightarrow> adjacent_pairs (a # xs) = (a, hd xs) # adjacent_pairs xs"
  by (cases xs) simp_all

text \<open>
  The invariant of the loop: the entries of \<^verbatim>\<open>merged\<close> are slot indices, and the not yet
  merged slots, read from left to right, hold exactly the adjacent pairs of a non-empty
  symbol sequence \<open>syms\<close>.
\<close>

definition slots_inv :: "wpair list \<Rightarrow> int set \<Rightarrow> wstring list \<Rightarrow> bool" where
  "slots_inv pairs merged syms =
     ((\<forall>m\<in>merged. 0 \<le> m \<and> m < int (length pairs)) \<and> syms \<noteq> [] \<and>
      map (\<lambda>i. pairs ! nat i) (unmerged (length pairs) merged) = adjacent_pairs syms)"

lemma merge_slot_eq:
  "merge_slot t pairs merged =
     (let mergeInto = fst (pairs ! nat t) @ snd (pairs ! nat t);
          l = left t (insert t merged);
          r = right t (int (length pairs)) (insert t merged);
          pairs1 = (if l \<ge> 0 then pairs[nat l := (fst (pairs ! nat l), mergeInto)] else pairs);
          pairs2 = (if r < int (length pairs)
                    then pairs1[nat r := (mergeInto, snd (pairs1 ! nat r))] else pairs1)
      in (pairs2, insert t merged))"
  by (simp add: merge_slot_def Let_def)

lemma merge_slot_inv:
  assumes inv: "slots_inv pairs merged syms"
    and us: "unmerged (length pairs) merged = A @ t # B"
  shows "slots_inv (fst (merge_slot t pairs merged)) (insert t merged) (merge_at (length A) syms)"
    and "concat (merge_at (length A) syms) = concat syms"
proof -
  define n where "n = length pairs"
  define g where "g = (\<lambda>i. pairs ! nat i)"
  define k where "k = length A"
  from inv have M: "\<forall>m\<in>merged. 0 \<le> m \<and> m < int n" and ne: "syms \<noteq> []"
    and adj: "map g (unmerged n merged) = adjacent_pairs syms"
    by (simp_all add: slots_inv_def n_def g_def)
  from M have M0: "\<forall>m\<in>merged. 0 \<le> m" by blast
  note sp = unmerged_split [OF us [folded n_def] M0]
  have inA: "0 \<le> a \<and> a < int n \<and> a < t" if "a \<in> set A" for a
    using that sp(4) set_unmerged [of n merged] us by (auto simp: n_def)
  have inB: "0 \<le> b \<and> b < int n \<and> t < b" if "b \<in> set B" for b
    using that sp(5) set_unmerged [of n merged] us by (auto simp: n_def)
  have dA: "distinct A" and dB: "distinct B"
    using distinct_unmerged [of n merged] us by (simp_all add: n_def)
  from adj us have adj': "map g A @ g t # map g B = adjacent_pairs syms"
    by (simp add: n_def)
  then have "length (map g A @ g t # map g B) = length (adjacent_pairs syms)" by simp
  with ne have len: "length syms = k + length B + 2"
    by (cases syms) (simp_all add: k_def)
  define S1 where "S1 = take k syms"
  define x where "x = syms ! k"
  define y where "y = syms ! Suc k"
  define S2 where "S2 = drop (k + 2) syms"
  have syms: "syms = S1 @ x # y # S2"
    unfolding S1_def x_def y_def S2_def using len
    by (simp add: Cons_nth_drop_Suc)
  have lS1: "length S1 = k" and lS2: "length S2 = length B"
    using len by (simp_all add: S1_def S2_def)
  have "adjacent_pairs syms = adjacent_pairs (S1 @ [x]) @ (x, y) # adjacent_pairs (y # S2)"
    by (subst syms, subst adjacent_pairs_append) simp
  with adj' have "map g A @ g t # map g B
                    = adjacent_pairs (S1 @ [x]) @ (x, y) # adjacent_pairs (y # S2)"
    by simp
  moreover have "length (map g A) = length (adjacent_pairs (S1 @ [x]))"
    by (simp add: lS1 k_def)
  ultimately have gA: "map g A = adjacent_pairs (S1 @ [x])" and gt: "g t = (x, y)"
    and gB: "map g B = adjacent_pairs (y # S2)"
    by simp_all
  define l where "l = (if A = [] then -1 else last A)"
  define r where "r = (if B = [] then int n else hd B)"
  define pairs1 where
    "pairs1 = (if l \<ge> 0 then pairs[nat l := (fst (pairs ! nat l), x @ y)] else pairs)"
  define pairs2 where
    "pairs2 = (if r < int n then pairs1[nat r := (x @ y, snd (pairs1 ! nat r))] else pairs1)"
  have ms: "fst (merge_slot t pairs merged) = pairs2"
    using gt sp(8,9)
    by (simp add: merge_slot_eq Let_def pairs2_def pairs1_def l_def r_def n_def g_def)
  have l1: "length pairs1 = n" and l2: "length pairs2 = n"
    by (simp_all add: pairs1_def pairs2_def n_def)
  have A_same: "pairs2 ! nat a = pairs1 ! nat a" if "a \<in> set A" for a
  proof (cases "B = []")
    case True
    then show ?thesis by (simp add: pairs2_def r_def)
  next
    case False
    then have "hd B \<in> set B" by simp
    with inB [of "hd B"] inA [OF that] have "nat (hd B) \<noteq> nat a" by auto
    with False show ?thesis by (simp add: pairs2_def r_def)
  qed
  have mA: "map (\<lambda>i. pairs2 ! nat i) A = adjacent_pairs (S1 @ [x @ y])"
  proof (cases "A = []")
    case True
    with lS1 show ?thesis by (simp add: k_def)
  next
    case False
    then obtain A' where A: "A = A' @ [l]"
      by (metis append_butlast_last_id l_def)
    from False lS1 have S1: "S1 \<noteq> []" by (auto simp: k_def)
    from A inA [of l] have lb: "0 \<le> l" "l < int n" by auto
    from gA A S1 have "map g A' @ [g l] = adjacent_pairs S1 @ [(last S1, x)]"
      by (simp add: adjacent_pairs_snoc)
    then have gA': "map g A' = adjacent_pairs S1" and gl: "g l = (last S1, x)" by simp_all
    have "pairs2 ! nat l = (fst (g l), x @ y)"
      using A_same [of l] A lb by (simp add: pairs1_def g_def n_def)
    moreover have "pairs2 ! nat a = g a" if "a \<in> set A'" for a
    proof -
      from that A dA have "a \<noteq> l" by auto
      moreover from that A inA [of a] have "0 \<le> a" by simp
      ultimately have "nat a \<noteq> nat l" using lb by simp
      with A_same [of a] that A lb show ?thesis by (simp add: pairs1_def g_def)
    qed
    ultimately have "map (\<lambda>i. pairs2 ! nat i) A = map g A' @ [(fst (g l), x @ y)]"
      by (simp add: A)
    with gA' gl S1 show ?thesis by (simp add: adjacent_pairs_snoc)
  qed
  have B_1: "pairs1 ! nat b = g b" if "b \<in> set B" for b
  proof (cases "A = []")
    case True
    then show ?thesis by (simp add: pairs1_def l_def g_def)
  next
    case False
    then have "last A \<in> set A" by simp
    with inA [of "last A"] inB [OF that] have "nat (last A) \<noteq> nat b" by auto
    then show ?thesis by (simp add: pairs1_def l_def g_def)
  qed
  have mB: "map (\<lambda>i. pairs2 ! nat i) B = adjacent_pairs ((x @ y) # S2)"
  proof (cases B)
    case Nil
    with lS2 show ?thesis by simp
  next
    case (Cons b B')
    then have r: "r = b" by (simp add: r_def)
    from Cons lS2 have S2: "S2 \<noteq> []" by auto
    from Cons inB [of b] have rb: "0 \<le> b" "b < int n" by auto
    from gB Cons S2 have "g b # map g B' = (y, hd S2) # adjacent_pairs S2"
      by (simp add: adjacent_pairs_Cons)
    then have gB': "map g B' = adjacent_pairs S2" and gr: "g b = (y, hd S2)" by simp_all
    have "pairs2 ! nat b = (x @ y, snd (g b))"
      using rb r B_1 [of b] Cons l1 by (simp add: pairs2_def)
    moreover have "pairs2 ! nat c = g c" if "c \<in> set B'" for c
    proof -
      from that Cons dB have "c \<noteq> b" by auto
      moreover from that Cons inB [of c] have "0 \<le> c" by simp
      ultimately have "nat c \<noteq> nat b" using rb by simp
      with B_1 [of c] that Cons rb r show ?thesis by (simp add: pairs2_def)
    qed
    ultimately have "map (\<lambda>i. pairs2 ! nat i) B = (x @ y, snd (g b)) # map g B'"
      by (simp add: Cons)
    with gB' gr S2 show ?thesis by (simp add: adjacent_pairs_Cons)
  qed
  have ma: "merge_at k syms = S1 @ (x @ y) # S2"
    by (simp add: merge_at_def S1_def x_def y_def S2_def)
  have "map (\<lambda>i. pairs2 ! nat i) (A @ B) = adjacent_pairs (merge_at k syms)"
    by (simp add: ma mA mB adjacent_pairs_append [of S1 "x @ y" S2])
  moreover have "\<forall>m\<in>insert t merged. 0 \<le> m \<and> m < int n"
    using M sp(1,2) by simp
  ultimately show "slots_inv (fst (merge_slot t pairs merged)) (insert t merged)
                     (merge_at (length A) syms)"
    using sp(6) by (simp add: slots_inv_def ms l2 ma k_def [symmetric])
  show "concat (merge_at (length A) syms) = concat syms"
    by (subst (2) syms) (simp add: ma k_def [symmetric])
qed

lemma unmerged_Nil_iff:
  assumes "\<forall>m\<in>merged. 0 \<le> m \<and> m < int n"
  shows "unmerged n merged = [] \<longleftrightarrow> card merged = n"
proof -
  have fin: "finite {0..int n - 1}" and card: "card {0..int n - 1} = n" by simp_all
  from assms have sub: "merged \<subseteq> {0..int n - 1}" by auto
  have "unmerged n merged = [] \<longleftrightarrow> {0..int n - 1} \<subseteq> merged"
    by (auto simp: unmerged_def filter_empty_conv)
  also have "\<dots> \<longleftrightarrow> merged = {0..int n - 1}" using sub by auto
  also have "\<dots> \<longleftrightarrow> card merged = n"
    using card_subset_eq [OF fin sub] card by auto
  finally show ?thesis .
qed

lemma concat_map_filter_Nil:
  "(\<And>x. x \<in> set xs \<Longrightarrow> \<not> P x \<Longrightarrow> f x = []) \<Longrightarrow>
     concat (map f xs) = concat (map f (filter P xs))"
  by (induction xs) auto

lemma emit_walk:
  "us \<noteq> [] \<Longrightarrow>
   (\<And>A u B. us = A @ u # B \<Longrightarrow> f u = (if A = [] then [fst (g u)] else []) @ [snd (g u)]) \<Longrightarrow>
     concat (map f us) = fst (g (hd us)) # map (\<lambda>u. snd (g u)) us"
proof (induction us rule: rev_induct)
  case Nil
  then show ?case by simp
next
  case (snoc u us)
  show ?case
  proof (cases "us = []")
    case True
    with snoc.prems(2) [of "[]" u "[]"] show ?thesis by simp
  next
    case False
    have "f v = (if A = [] then [fst (g v)] else []) @ [snd (g v)]" if "us = A @ v # B" for A v B
      using snoc.prems(2) [of A v "B @ [u]"] that by simp
    from snoc.IH [OF False this] snoc.prems(2) [of us u "[]"] False show ?thesis by simp
  qed
qed

text \<open>The output loop gives back the symbol sequence the slots stand for.\<close>

lemma emit_slots:
  assumes inv: "slots_inv pairs merged syms" and tok: "concat syms = token"
  shows "emit token pairs merged = syms"
proof -
  define n where "n = length pairs"
  define g where "g = (\<lambda>i. pairs ! nat i)"
  define us where "us = unmerged n merged"
  from inv have M: "\<forall>m\<in>merged. 0 \<le> m \<and> m < int n" and ne: "syms \<noteq> []"
    and adj: "map g us = adjacent_pairs syms"
    by (simp_all add: slots_inv_def n_def g_def us_def)
  from M have M0: "\<forall>m\<in>merged. 0 \<le> m" by blast
  show ?thesis
  proof (cases "us = []")
    case True
    with adj ne have "length syms = 1" by (cases syms) (auto simp: adjacent_pairs_def)
    then obtain s where "syms = [s]" by (cases syms) auto
    moreover from True M have "card merged = n" by (simp add: us_def unmerged_Nil_iff)
    ultimately show ?thesis using tok by (simp add: emit_def n_def)
  next
    case False
    with M have c: "card merged \<noteq> length pairs" by (simp add: us_def unmerged_Nil_iff n_def)
    define f where "f = (\<lambda>i. if i \<notin> merged
                             then (if left i merged < 0 then [fst (g i)] else []) @ [snd (g i)]
                             else [])"
    have "emit token pairs merged = concat (map f [0..int n - 1])"
      unfolding emit_def f_def g_def n_def using c by simp
    also have "\<dots> = concat (map f us)"
      unfolding us_def unmerged_def by (rule concat_map_filter_Nil) (simp add: f_def)
    also have "\<dots> = fst (g (hd us)) # map (\<lambda>u. snd (g u)) us"
    proof (rule emit_walk [OF False])
      fix A u B assume d: "us = A @ u # B"
      note sp = unmerged_split [OF d [unfolded us_def] M0]
      have "0 \<le> last A" if "A \<noteq> []"
      proof -
        from that have "last A \<in> set us" by (simp add: d)
        then show ?thesis by (simp add: us_def set_unmerged)
      qed
      then have "\<not> left u merged < 0" if "A \<noteq> []"
        using that sp(7) by simp
      moreover have "left u merged < 0" if "A = []"
        using that sp(7) by simp
      ultimately show "f u = (if A = [] then [fst (g u)] else []) @ [snd (g u)]"
        using sp(3) by (cases "A = []") (simp_all add: f_def)
    qed
    also have "\<dots> = syms"
    proof -
      from False adj obtain a b rest where s: "syms = a # b # rest"
        by (cases syms; cases "tl syms") (auto simp: adjacent_pairs_def)
      have "map (\<lambda>u. snd (g u)) us = map snd (map g us)" by simp
      also have "\<dots> = tl syms" by (simp add: adj adjacent_pairs_def s map_snd_zip_take)
      finally have 1: "map (\<lambda>u. snd (g u)) us = tl syms" .
      have "g (hd us) = hd (map g us)" using False by (simp add: hd_map)
      also have "\<dots> = (a, b)" by (simp add: adj s)
      finally have "fst (g (hd us)) = hd syms" by (simp add: s)
      with 1 ne show ?thesis by simp
    qed
    finally show ?thesis .
  qed
qed

lemma select_in_unmerged:
  "snd (select ranks pairs merged) \<noteq> -1 \<Longrightarrow>
     snd (select ranks pairs merged) \<in> set (unmerged (length pairs) merged)"
  using select_range [of ranks pairs merged] by (simp add: set_unmerged)

text \<open>The loop keeps the invariant, and the concatenation of the symbols.\<close>

lemma merge_loop_inv:
  "slots_inv pairs merged syms \<Longrightarrow>
     \<exists>syms'. slots_inv (fst (merge_loop ranks pairs merged)) (snd (merge_loop ranks pairs merged))
                syms' \<and> concat syms' = concat syms"
proof (induction ranks pairs merged arbitrary: syms rule: merge_loop.induct)
  case (1 ranks pairs merged)
  define t where "t = snd (select ranks pairs merged)"
  show ?case
  proof (cases "t = -1")
    case True
    with "1.prems" show ?thesis
      by (subst (1 2) merge_loop.simps) (auto simp: t_def)
  next
    case False
    then have "t \<in> set (unmerged (length pairs) merged)"
      using select_in_unmerged [of ranks pairs merged] by (simp add: t_def)
    then obtain A B where us: "unmerged (length pairs) merged = A @ t # B"
      by (auto dest: split_list)
    note step = merge_slot_inv [OF "1.prems" us]
    from step(1) have "slots_inv (fst (merge_slot t pairs merged)) (snd (merge_slot t pairs merged))
                         (merge_at (length A) syms)"
      by simp
    from "1.IH" [OF t_def False this] step(2) False show ?thesis
      by (subst (1 2) merge_loop.simps) (auto simp: t_def Let_def)
  qed
qed

lemma select_best_pair:
  assumes b: "ranks_below_max ranks" and inv: "slots_inv pairs merged syms"
  shows "best_pair ranks (adjacent_pairs syms) = None \<Longrightarrow>
           snd (select ranks pairs merged) = -1"
    and "best_pair ranks (adjacent_pairs syms) = Some k \<Longrightarrow>
           k < length (unmerged (length pairs) merged) \<and>
           snd (select ranks pairs merged) = unmerged (length pairs) merged ! k"
proof -
  define us where "us = unmerged (length pairs) merged"
  from inv have adj: "map (\<lambda>i. pairs ! nat i) us = adjacent_pairs syms"
    by (simp add: slots_inv_def us_def)
  have "map (\<lambda>i. score ranks (pairs ! nat i)) us = map (score ranks) (adjacent_pairs syms)"
    by (simp flip: adj)
  then have am: "argmin_from SSIZE_MAX (map (\<lambda>i. score ranks (pairs ! nat i)) us)
                   = best_pair ranks (adjacent_pairs syms)"
    using argmin_best_pair [OF b, of SSIZE_MAX "adjacent_pairs syms"] min_rank_attained [of ranks "adjacent_pairs syms"] b
    by (auto simp: best_pair_def ranks_below_max_def split: option.splits)
  have len: "length us = length (adjacent_pairs syms)"
    using adj by (auto dest: arg_cong [where f = length])
  show "snd (select ranks pairs merged) = -1" if "best_pair ranks (adjacent_pairs syms) = None"
    using that am by (simp add: select_argmin us_def)
  show "k < length (unmerged (length pairs) merged) \<and>
         snd (select ranks pairs merged) = unmerged (length pairs) merged ! k"
    if "best_pair ranks (adjacent_pairs syms) = Some k"
    using that best_pair_less [OF that] am len by (simp add: select_argmin us_def)
qed

text \<open>With ranks below the sentinel the loop makes exactly the merges of the naive algorithm.\<close>

lemma merge_loop_naive:
  "ranks_below_max ranks \<Longrightarrow> slots_inv pairs merged syms \<Longrightarrow>
     slots_inv (fst (merge_loop ranks pairs merged)) (snd (merge_loop ranks pairs merged))
       (naive_bpe ranks syms)"
proof (induction ranks pairs merged arbitrary: syms rule: merge_loop.induct)
  case (1 ranks pairs merged)
  define t where "t = snd (select ranks pairs merged)"
  define us where "us = unmerged (length pairs) merged"
  note sel = select_best_pair [OF "1.prems"]
  show ?case
  proof (cases "best_pair ranks (adjacent_pairs syms)")
    case None
    with sel(1) have "t = -1" by (simp add: t_def)
    moreover from None have "naive_bpe ranks syms = syms" by (subst naive_bpe.simps) simp
    ultimately show ?thesis using "1.prems"(2)
      by (subst (1 2) merge_loop.simps) (simp add: t_def)
  next
    case (Some k)
    with sel(2) [of k] have k: "k < length us" and t: "t = us ! k"
      by (simp_all add: t_def us_def)
    then have "t \<in> set us" by simp
    then have tn: "t \<noteq> -1" by (simp add: us_def set_unmerged)
    from k t have us: "unmerged (length pairs) merged = take k us @ t # drop (Suc k) us"
      by (simp add: us_def id_take_nth_drop)
    note step = merge_slot_inv [OF "1.prems"(2) us]
    from step(1) k
    have "slots_inv (fst (merge_slot t pairs merged)) (snd (merge_slot t pairs merged))
            (merge_at k syms)"
      by simp
    from "1.IH" [OF t_def tn "1.prems"(1) this]
    have "slots_inv (fst (merge_loop ranks pairs merged)) (snd (merge_loop ranks pairs merged))
            (naive_bpe ranks (merge_at k syms))"
      using tn by (subst (1 2) merge_loop.simps) (simp add: t_def Let_def)
    moreover from Some have "naive_bpe ranks syms = naive_bpe ranks (merge_at k syms)"
      by (subst naive_bpe.simps) simp
    ultimately show ?thesis by simp
  qed
qed

section \<open>\<^verbatim>\<open>bpe\<close> against the naive merge\<close>

lemma getPairs_loop_adjacent:
  "getPairs_loop previous cs = adjacent_pairs (map (\<lambda>c. [c]) (previous # cs))"
  by (induction cs arbitrary: previous) simp_all

lemma getPairs_adjacent: "getPairs token = adjacent_pairs (map (\<lambda>c. [c]) token)"
proof (cases token)
  case Nil
  then show ?thesis by (simp add: getPairs_def)
next
  case (Cons c cs)
  then show ?thesis by (cases cs) (simp_all add: getPairs_def getPairs_loop_adjacent)
qed

lemma unmerged_empty: "unmerged n {} = [0..int n - 1]"
  by (simp add: unmerged_def)

lemma slots_inv_initial:
  "token \<noteq> [] \<Longrightarrow> slots_inv (getPairs token) {} (map (\<lambda>c. [c]) token)"
  by (simp add: slots_inv_def unmerged_empty map_nth_upto) (rule getPairs_adjacent)

lemma concat_singletons: "concat (map (\<lambda>c. [c]) token) = token"
  by (induction token) simp_all

lemma bpe_symbols_eq:
  "bpe_symbols T token =
     emit token (fst (merge_loop (m_bpeRanks T) (getPairs token) {}))
                (snd (merge_loop (m_bpeRanks T) (getPairs token) {}))"
  by (simp add: bpe_symbols_def bpe_def split: prod.splits)

text \<open>The symbols \<^verbatim>\<open>bpe\<close> returns are a partition of the token it was given.\<close>

lemma concat_bpe_symbols: "concat (bpe_symbols T token) = token"
proof (cases "token = []")
  case True
  have "merge_loop (m_bpeRanks T) [] {} = ([], {})"
    by (subst merge_loop.simps) (simp add: select_def)
  with True show ?thesis by (simp add: bpe_symbols_eq getPairs_def emit_def)
next
  case False
  from merge_loop_inv [OF slots_inv_initial [OF False], of "m_bpeRanks T"]
  obtain syms where
    "slots_inv (fst (merge_loop (m_bpeRanks T) (getPairs token) {}))
       (snd (merge_loop (m_bpeRanks T) (getPairs token) {})) syms"
    and "concat syms = token"
    by (auto simp: concat_singletons)
  from emit_slots [OF this] \<open>concat syms = token\<close> show ?thesis
    by (simp add: bpe_symbols_eq)
qed

lemma concat_naive_bpe: "concat (naive_bpe ranks syms) = concat syms"
proof (induction ranks syms rule: naive_bpe.induct)
  case (1 ranks syms)
  show ?case
  proof (cases "best_pair ranks (adjacent_pairs syms)")
    case None
    then show ?thesis by (subst naive_bpe.simps) simp
  next
    case (Some k)
    from best_pair_less [OF Some] have k: "Suc k < length syms" by simp
    then have d: "take k syms @ syms ! k # syms ! Suc k # drop (k + 2) syms = syms"
      by (simp add: id_take_nth_drop Cons_nth_drop_Suc)
    have "concat (merge_at k syms)
            = concat (take k syms @ syms ! k # syms ! Suc k # drop (k + 2) syms)"
      by (simp add: merge_at_def)
    also have "\<dots> = concat syms" by (rule arg_cong [OF d])
    finally show ?thesis using "1.IH" [OF Some] Some by (subst naive_bpe.simps) simp
  qed
qed

text \<open>
  Claim C5 as the code has it. For a non-empty token and a table whose ranks are below the
  sentinel \<^verbatim>\<open>max()\<close> that stands for a missing rule, the symbols \<^verbatim>\<open>bpe\<close> returns, computed
  on the fixed slot array with the merged set and the patched neighbours, are the
  symbols the naive algorithm computes on the list of the token's one-character symbols.
\<close>

theorem bpe_refines_naive:
  assumes "token \<noteq> []" and "ranks_below_max (m_bpeRanks T)"
  shows "fst (bpe T token) = naive_bpe (m_bpeRanks T) (map (\<lambda>c. [c]) token)"
proof -
  note inv = merge_loop_naive [OF assms(2) slots_inv_initial [OF assms(1)]]
  have "concat (naive_bpe (m_bpeRanks T) (map (\<lambda>c. [c]) token)) = token"
    by (simp add: concat_naive_bpe concat_singletons)
  from emit_slots [OF inv this] show ?thesis
    by (simp add: bpe_symbols_eq [unfolded bpe_symbols_def])
qed

section \<open>A small tokenizer to run the code on\<close>

text \<open>
  A merge-rules file with the header line and the two rules \<^verbatim>\<open>a b\<close> and \<^verbatim>\<open>ab c\<close>, and a
  vocabulary file with ten tokens; \<^verbatim>\<open>0xC4 0xA0\<close> is the UTF-8 form of code point 288, the
  code point of the space byte.
\<close>

definition example_merges :: "string list" where
  "example_merges = [''#version: 0.2'', ''a b'', ''ab c'']"

definition example_vocab :: "string list" where
  "example_vocab =
     [''a'', ''0'', ''b'', ''1'', ''c'', ''2'', ''ab'', ''3'', ''abc'', ''4'', ''d'', ''5'',
      [CHR 0xC4, CHR 0xA0], ''6'', ''<|endoftext|>'', ''7'',
      [CHR 0xC3, CHR 0x83], ''8'', [CHR 0xC2, CHR 0xA8], ''9'']"

definition example_tables :: BPE where
  "example_tables =
     \<lparr>m_bpeRanks = [([0x61], [0x62]) \<mapsto> 1, ([0x61, 0x62], [0x63]) \<mapsto> 2],
      m_b2u = Map.empty, m_u2b = Map.empty,
      m_t2i = [''a'' \<mapsto> 0, ''b'' \<mapsto> 1, ''c'' \<mapsto> 2, ''ab'' \<mapsto> 3, ''abc'' \<mapsto> 4, ''d'' \<mapsto> 5,
               [CHR 0xC4, CHR 0xA0] \<mapsto> 6, ''<|endoftext|>'' \<mapsto> 7,
               [CHR 0xC3, CHR 0x83] \<mapsto> 8, [CHR 0xC2, CHR 0xA8] \<mapsto> 9],
      m_i2t = [0 \<mapsto> ''a'', 1 \<mapsto> ''b'', 2 \<mapsto> ''c'', 3 \<mapsto> ''ab'', 4 \<mapsto> ''abc'', 5 \<mapsto> ''d'',
               6 \<mapsto> [CHR 0xC4, CHR 0xA0], 7 \<mapsto> ''<|endoftext|>'',
               8 \<mapsto> [CHR 0xC3, CHR 0x83], 9 \<mapsto> [CHR 0xC2, CHR 0xA8]]\<rparr>"

definition example_bpe :: BPE where
  "example_bpe = bytesToUnicode example_tables"

lemmas eval_bits = bits_arith char_of_def bit_iff_odd and_then_def peek_def

lemma example_loadMergeRules:
  "loadMergeRules (Content example_merges) cleared
     = Inr (cleared\<lparr>m_bpeRanks := [([0x61], [0x62]) \<mapsto> 1, ([0x61, 0x62], [0x63]) \<mapsto> 2]\<rparr>)"
  by (simp add: loadMergeRules_def getlines_def example_merges_def split_rule_def
      string_find_def eval_bits umap_insert_def)

lemma example_loadVocab:
  "loadVocab (Content example_vocab) T
     = Inr (T\<lparr>m_t2i := m_t2i example_tables, m_i2t := m_i2t example_tables\<rparr>)"
  by (simp add: loadVocab_def getlines_def example_vocab_def stoi_eval and_then_def
      umap_insert_def example_tables_def)

lemma example_construct:
  "construct (Content example_merges) (Content example_vocab) = Inr example_bpe"
  by (simp add: construct_def example_loadMergeRules example_loadVocab and_then_def)
     (simp add: example_bpe_def example_tables_def cleared_def)


lemma example_ranks:
  "m_bpeRanks example_bpe = [([0x61], [0x62]) \<mapsto> 1, ([0x61, 0x62], [0x63]) \<mapsto> 2]"
  by (simp add: example_bpe_def bytesToUnicode_def bytesToUnicode_in_def Let_def
      example_tables_def)

lemma example_t2i: "m_t2i example_bpe = m_t2i example_tables"
  by (simp add: example_bpe_def bytesToUnicode_def bytesToUnicode_in_def Let_def)

lemma example_i2t: "m_i2t example_bpe = m_i2t example_tables"
  by (simp add: example_bpe_def bytesToUnicode_def bytesToUnicode_in_def Let_def)

lemma example_b2u: "m_b2u example_bpe c = Some (b2u_val c)"
  by (simp add: example_bpe_def m_b2u_bytesToUnicode)

lemma example_u2b: "m_u2b example_bpe (b2u_val c) = Some c"
  by (simp add: example_bpe_def m_u2b_bytesToUnicode)

lemma example_ranks_below_max: "ranks_below_max (m_bpeRanks example_bpe)"
  by (simp add: ranks_below_max_def example_ranks SSIZE_MAX_def)

text \<open>The facts that evaluate \<^verbatim>\<open>tokenize\<close> and \<^verbatim>\<open>bpe\<close> on a concrete text.\<close>

lemmas regex_eval = match_here_def or_else_def contractions_def opt_space_run_def
  is_letter_def is_digit_def is_other_def is_space_def is_word_def

lemmas merge_eval = bpe_symbols_def bpe_def getPairs_def merge_loop.simps select_def
  select_step_def score_def SSIZE_MAX_def upto.simps merge_slot_def left_def right_def
  left_loop.simps right_loop.simps Let_def emit_def

lemmas tokenize_eval = tokens_of_def tokenize_def tokenize_loop_unfold eval_bits regex_eval
  umap_at_def b2u_val_def printable_def wstringToUTF8_def utf8_of_wchar_def merge_eval

lemma example_tokens: "tokens_of example_bpe ''abc ab d'' =
    Inr [''abc'', [CHR 0xC4, CHR 0xA0], ''ab'', [CHR 0xC4, CHR 0xA0], ''d'']"
  by (simp add: tokenize_eval example_b2u example_ranks)

lemma example_naive: "naive_bpe (m_bpeRanks example_bpe) [[0x61], [0x62], [0x63]] = [[0x61, 0x62, 0x63]]"
  by (simp add: naive_bpe.simps best_pair_def merge_at_def example_ranks)

theorem bpe_refines_naive_witness:
  "[0x61, 0x62, 0x63] \<noteq> ([] :: wstring) \<and> ranks_below_max (m_bpeRanks example_bpe)
   \<and> fst (bpe example_bpe [0x61, 0x62, 0x63]) = [[0x61, 0x62, 0x63]]
   \<and> naive_bpe (m_bpeRanks example_bpe) (map (\<lambda>c. [c]) [0x61, 0x62, 0x63])
       = [[0x61, 0x62, 0x63]]"
  using bpe_refines_naive [of "[0x61, 0x62, 0x63]" example_bpe] example_ranks_below_max
    example_naive
  by simp

text \<open>
  The claim as stated fails for the empty token, whose initial symbol sequence is empty:
  \<^verbatim>\<open>bpe\<close> finds \<^verbatim>\<open>merged.size() == pairs.size()\<close> (both 0) and emits the token, one empty
  symbol, where the naive algorithm leaves the empty sequence as it is.
\<close>

theorem bpe_empty_token_differs:
  "fst (bpe cleared []) = [[]] \<and> naive_bpe (m_bpeRanks cleared) (map (\<lambda>c. [c]) []) = []"
  by (simp add: merge_eval [unfolded bpe_symbols_def] naive_bpe.simps best_pair_def)


section \<open>Runs of \<^verbatim>\<open>encode\<close> and \<^verbatim>\<open>decode\<close> on the small tokenizer\<close>


lemma endoftext_nonempty: "endoftext \<noteq> []"
  by (simp add: endoftext_def)

lemma example_split: "split_on endoftext ''abc<|endoftext|>ab d'' = [''abc'', ''ab d'']"
  by (simp add: endoftext_def)

lemma example_tokens_abc: "tokens_of example_bpe ''abc'' = Inr [''abc'']"
  by (simp add: tokenize_eval example_b2u example_ranks)

lemma example_tokens_ab_d:
  "tokens_of example_bpe ''ab d'' = Inr [''ab'', [CHR 0xC4, CHR 0xA0], ''d'']"
  by (simp add: tokenize_eval example_b2u example_ranks)

lemma example_segment_tokens:
  "segment_tokens example_bpe endoftext [''abc'', ''ab d'']
     = Inr [''abc'', endoftext, ''ab'', [CHR 0xC4, CHR 0xA0], ''d'']"
  by (simp add: example_tokens_abc example_tokens_ab_d and_then_def)

lemma example_lookup_ids:
  "lookup_ids example_bpe [''abc'', endoftext, ''ab'', [CHR 0xC4, CHR 0xA0], ''d'']
     = Inr [4, 7, 3, 6, 5]"
  by (simp add: umap_at_def and_then_def example_t2i example_tables_def endoftext_def)

lemma example_encode:
  "encode example_bpe ''abc<|endoftext|>ab d'' endoftext
     = Some (Inr [4, 7, 3, 6, 5], example_bpe)"
  by (simp only: encode_eq_segments [OF endoftext_nonempty] example_split
      example_segment_tokens example_lookup_ids and_then_def sum.case)


theorem encode_splits_on_marker_witness:
  "endoftext \<noteq> [] \<and> split_on endoftext ''abc<|endoftext|>ab d'' = [''abc'', ''ab d'']
   \<and> segment_tokens example_bpe endoftext [''abc'', ''ab d'']
       = Inr [''abc'', endoftext, ''ab'', [CHR 0xC4, CHR 0xA0], ''d'']
   \<and> encode example_bpe ''abc<|endoftext|>ab d'' endoftext
       = Some (Inr [4, 7, 3, 6, 5], example_bpe)"
proof -
  from encode_splits_on_marker [OF endoftext_nonempty, of example_bpe "''abc<|endoftext|>ab d''"]
  have "encode example_bpe ''abc<|endoftext|>ab d'' endoftext =
          Some (and_then (segment_tokens example_bpe endoftext
                  (split_on endoftext ''abc<|endoftext|>ab d'')) (lookup_ids example_bpe),
                example_bpe)"
    by blast
  then have "encode example_bpe ''abc<|endoftext|>ab d'' endoftext
               = Some (Inr [4, 7, 3, 6, 5], example_bpe)"
    by (simp only: example_split example_segment_tokens example_lookup_ids and_then_def
        sum.case)
  with endoftext_nonempty example_split example_segment_tokens show ?thesis by blast
qed


text \<open>
  Claim C9. A call of \<^verbatim>\<open>encode\<close> that returns, with a value or with an exception, returns
  the object with all five tables as they were, and so does every call of \<^verbatim>\<open>decode\<close>.
\<close>

theorem encode_decode_preserve_tables:
  "(\<forall>r T'. encode T str eot = Some (r, T') \<longrightarrow>
      T' = T \<and> m_bpeRanks T' = m_bpeRanks T \<and> m_b2u T' = m_b2u T \<and> m_u2b T' = m_u2b T
      \<and> m_t2i T' = m_t2i T \<and> m_i2t T' = m_i2t T)
   \<and> snd (decode T tokenIds) = T"
  using snd_encode [of T str eot] by (auto simp: decode_def)

lemma u2b_printable:
  assumes "printable w"
  shows "m_u2b (bytesToUnicode T) w = Some (char_of w)"
proof -
  from assms have "w < 256" by (auto simp: printable_def)
  then have "(of_char (char_of w :: char) :: nat) = w"
    by (simp add: of_char_of)
  with assms have "b2u_val (char_of w) = w" by (simp add: b2u_val_def)
  with m_u2b_bytesToUnicode [of T "char_of w"] show ?thesis by simp
qed

lemma u2b_space: "m_u2b (bytesToUnicode T) 288 = Some CHR '' ''"
  using m_u2b_bytesToUnicode [of T "CHR '' ''"] by (simp add: b2u_val_def printable_def)

lemma example_u2b_printable: "printable w \<Longrightarrow> m_u2b example_bpe w = Some (char_of w)"
  by (simp add: example_bpe_def u2b_printable)

lemma example_u2b_space: "m_u2b example_bpe 288 = Some CHR '' ''"
  by (simp add: example_bpe_def u2b_space)

lemma example_decode:
  "decode example_bpe [4, 7, 3, 6, 5] = (Inr ''abc<|endoftext|>ab d'', example_bpe)"
  by (simp add: decode_def umap_at_def example_i2t example_tables_def eval_bits
      example_u2b_printable example_u2b_space printable_def)

theorem encode_decode_preserve_tables_witness:
  "encode example_bpe ''abc<|endoftext|>ab d'' endoftext = Some (Inr [4, 7, 3, 6, 5], example_bpe)
   \<and> decode example_bpe [4, 7, 3, 6, 5] = (Inr ''abc<|endoftext|>ab d'', example_bpe)
   \<and> snd (decode example_bpe [4, 7, 3, 6, 5]) = example_bpe"
  using encode_decode_preserve_tables [of example_bpe "''abc<|endoftext|>ab d''" endoftext
      "[4, 7, 3, 6, 5]"] example_encode example_decode
  by simp

section \<open>Ranks are unique, ties in the selection loop are not excluded\<close>

definition unique_ranks :: "(wpair \<rightharpoonup> int) \<Rightarrow> bool" where
  "unique_ranks ranks = (\<forall>p q r. ranks p = Some r \<longrightarrow> ranks q = Some r \<longrightarrow> p = q)"

lemma umap_insert_Some:
  "umap_insert m k v p = Some r \<Longrightarrow> m p = Some r \<or> (p = k \<and> r = v)"
  by (auto simp: umap_insert_def split: if_splits)

lemma loadMergeRules_loop_ranks:
  "loadMergeRules_loop ranks n lines = Inr ranks' \<Longrightarrow> 0 \<le> n \<Longrightarrow>
   (\<forall>p r. ranks p = Some r \<longrightarrow> 0 < r \<and> r < n) \<Longrightarrow> unique_ranks ranks \<Longrightarrow>
     (\<forall>p r. ranks' p = Some r \<longrightarrow> 0 < r \<and> r < n + int (length lines)) \<and> unique_ranks ranks'"
proof (induction lines arbitrary: ranks n)
  case Nil
  then show ?case by simp
next
  case (Cons line lines)
  show ?case
  proof (cases "n > 0")
    case False
    with Cons.prems have n: "n = 0" by simp
    with Cons.prems(1) have loop: "loadMergeRules_loop ranks (n + 1) lines = Inr ranks'" by simp
    have b0: "\<forall>p r. ranks p = Some r \<longrightarrow> 0 < r \<and> r < n + 1"
    proof (intro allI impI)
      fix p x assume "ranks p = Some x"
      with Cons.prems(3) have "0 < x \<and> x < n" by blast
      then show "0 < x \<and> x < n + 1" by simp
    qed
    have n1: "0 \<le> n + 1" using n by simp
    have e: "n + 1 + int (length lines) = n + int (length (line # lines))" by simp
    from Cons.IH [OF loop n1 b0 Cons.prems(4)] show ?thesis unfolding e .
  next
    case True
    with Cons.prems(1) obtain l r where
      loop: "loadMergeRules_loop (umap_insert ranks (l, r) n) (n + 1) lines = Inr ranks'"
      by (auto simp: and_then_def split: sum.splits)
    define ranks1 where "ranks1 = umap_insert ranks (l, r) n"
    have b1: "\<forall>p r. ranks1 p = Some r \<longrightarrow> 0 < r \<and> r < n + 1"
    proof (intro allI impI)
      fix p x assume "ranks1 p = Some x"
      then have "ranks p = Some x \<or> x = n"
        unfolding ranks1_def by (blast dest: umap_insert_Some)
      then show "0 < x \<and> x < n + 1"
      proof
        assume "ranks p = Some x"
        with Cons.prems(3) have "0 < x \<and> x < n" by blast
        then show ?thesis by simp
      next
        assume "x = n"
        with True show ?thesis by simp
      qed
    qed
    have u1: "unique_ranks ranks1"
      unfolding unique_ranks_def
    proof (intro allI impI)
      fix p q x assume p: "ranks1 p = Some x" and q: "ranks1 q = Some x"
      from p have p': "ranks p = Some x \<or> (p = (l, r) \<and> x = n)"
        unfolding ranks1_def by (rule umap_insert_Some)
      from q have q': "ranks q = Some x \<or> (q = (l, r) \<and> x = n)"
        unfolding ranks1_def by (rule umap_insert_Some)
      have old: "y < n" if "ranks k = Some y" for k y
        using Cons.prems(3) that by blast
      from p' q' show "p = q"
      proof (elim disjE conjE)
        assume "ranks p = Some x" "ranks q = Some x"
        with Cons.prems(4) show ?thesis unfolding unique_ranks_def by blast
      next
        assume "ranks p = Some x" "x = n"
        with old [of p x] show ?thesis by simp
      next
        assume "ranks q = Some x" "x = n"
        with old [of q x] show ?thesis by simp
      next
        assume "p = (l, r)" "q = (l, r)"
        then show ?thesis by simp
      qed
    qed
    have n1: "0 \<le> n + 1" using True by simp
    have e: "n + 1 + int (length lines) = n + int (length (line # lines))" by simp
    from Cons.IH [OF loop [folded ranks1_def] n1 b1 u1] show ?thesis unfolding e .
  qed
qed

text \<open>
  In a table \<^verbatim>\<open>loadMergeRules\<close> has built, the rank of a rule is the number of its line
  (the header being line 0), so no two rules have the same rank; and as long as the file
  has at most \<^verbatim>\<open>max()\<close> lines, every rank is below the sentinel.
\<close>

lemma loadMergeRules_ranks:
  assumes "loadMergeRules f T = Inr T'"
  shows "unique_ranks (m_bpeRanks T')"
    and "\<forall>p r. m_bpeRanks T' p = Some r \<longrightarrow> 0 < r \<and> r < int (length (getlines f))"
    and "int (length (getlines f)) \<le> SSIZE_MAX \<Longrightarrow> ranks_below_max (m_bpeRanks T')"
proof -
  from assms obtain ranks where l: "loadMergeRules_loop Map.empty 0 (getlines f) = Inr ranks"
    and T': "T' = T\<lparr>m_bpeRanks := ranks\<rparr>"
    by (auto simp: loadMergeRules_def and_then_def split: sum.splits)
  from loadMergeRules_loop_ranks [OF l] T'
  show u: "unique_ranks (m_bpeRanks T')"
    and b: "\<forall>p r. m_bpeRanks T' p = Some r \<longrightarrow> 0 < r \<and> r < int (length (getlines f))"
    by (simp_all add: unique_ranks_def)
  show "ranks_below_max (m_bpeRanks T')" if "int (length (getlines f)) \<le> SSIZE_MAX"
    unfolding ranks_below_max_def using b that by force
qed

lemma select_result:
  assumes sel: "select ranks pairs merged = (minScore, toMerge)" and t: "toMerge \<noteq> -1"
  shows "\<exists>k < length (unmerged (length pairs) merged).
           toMerge = unmerged (length pairs) merged ! k
         \<and> minScore = score ranks (pairs ! nat toMerge) \<and> minScore < SSIZE_MAX
         \<and> (\<forall>j < length (unmerged (length pairs) merged).
               minScore \<le> score ranks (pairs ! nat (unmerged (length pairs) merged ! j)))
         \<and> (\<forall>j < k. minScore < score ranks (pairs ! nat (unmerged (length pairs) merged ! j)))"
proof -
  define us where "us = unmerged (length pairs) merged"
  define xs where "xs = map (\<lambda>i. score ranks (pairs ! nat i)) us"
  have sa: "select ranks pairs merged =
     (case argmin_from SSIZE_MAX xs of None \<Rightarrow> (SSIZE_MAX, -1)
      | Some k \<Rightarrow> (score ranks (pairs ! nat (us ! k)), us ! k))"
    unfolding xs_def us_def by (rule select_argmin)
  show ?thesis
  proof (cases "argmin_from SSIZE_MAX xs")
    case None
    with sa sel t show ?thesis by simp
  next
    case (Some k)
    with sa sel have m: "minScore = score ranks (pairs ! nat (us ! k))" and tm: "toMerge = us ! k"
      by simp_all
    have lx: "length xs = length us" by (simp add: xs_def)
    from argmin_from_Some [OF Some] have k: "k < length us" and fin: "xs ! k < SSIZE_MAX"
      and least: "\<forall>j<length us. xs ! k \<le> xs ! j" and left: "\<forall>j<k. xs ! k < xs ! j"
      unfolding lx by blast+
    from k have xk: "xs ! k = minScore" by (simp add: xs_def m)
    have xj: "xs ! j = score ranks (pairs ! nat (us ! j))" if "j < length us" for j
      using that by (simp add: xs_def)
    have "toMerge = us ! k \<and> minScore = score ranks (pairs ! nat toMerge) \<and> minScore < SSIZE_MAX
         \<and> (\<forall>j < length us. minScore \<le> score ranks (pairs ! nat (us ! j)))
         \<and> (\<forall>j < k. minScore < score ranks (pairs ! nat (us ! j)))"
    proof (intro conjI allI impI)
      show "toMerge = us ! k" by (rule tm)
      show "minScore = score ranks (pairs ! nat toMerge)" by (simp add: m tm)
      show "minScore < SSIZE_MAX" using fin xk by simp
      show "minScore \<le> score ranks (pairs ! nat (us ! j))" if "j < length us" for j
        using least that xj [OF that] xk by auto
      show "minScore < score ranks (pairs ! nat (us ! j))" if "j < k" for j
      proof -
        from that k have "j < length us" by simp
        from xj [OF this] left that xk show ?thesis by auto
      qed
    qed
    with k show ?thesis unfolding us_def by blast
  qed
qed

text \<open>
  Claim C6 as the code has it. Ranks are unique per rule, not per slot: in a table built by
  \<^verbatim>\<open>loadMergeRules\<close> two different pairs never have the same rank, so in every state of the
  slot array (hence at every iteration, for every input) the not yet merged slots that
  attain the minimal finite rank all hold the same pair of symbols. There can be several
  of them; the strict comparison of the loop selects the leftmost.
\<close>

theorem selection_ties_hold_equal_pairs:
  assumes load: "loadMergeRules f T0 = Inr T"
    and sel: "select (m_bpeRanks T) pairs merged = (minScore, toMerge)"
    and t: "toMerge \<noteq> -1"
  shows "0 \<le> toMerge \<and> toMerge < int (length pairs) \<and> toMerge \<notin> merged
       \<and> m_bpeRanks T (pairs ! nat toMerge) = Some minScore
       \<and> (\<forall>i. 0 \<le> i \<and> i < int (length pairs) \<and> i \<notin> merged \<longrightarrow>
             minScore \<le> score (m_bpeRanks T) (pairs ! nat i)
             \<and> (score (m_bpeRanks T) (pairs ! nat i) = minScore \<longrightarrow>
                  pairs ! nat i = pairs ! nat toMerge \<and> toMerge \<le> i))"
proof -
  define ranks where "ranks = m_bpeRanks T"
  define us where "us = unmerged (length pairs) merged"
  from select_result [OF sel t] obtain k where k: "k < length us" and tm: "toMerge = us ! k"
    and m: "minScore = score ranks (pairs ! nat toMerge)" and fin: "minScore < SSIZE_MAX"
    and least: "\<forall>j < length us. minScore \<le> score ranks (pairs ! nat (us ! j))"
    and left: "\<forall>j < k. minScore < score ranks (pairs ! nat (us ! j))"
    unfolding us_def ranks_def by blast
  from k tm have "toMerge \<in> set us" by simp
  then have r: "0 \<le> toMerge" "toMerge < int (length pairs)" "toMerge \<notin> merged"
    by (simp_all add: us_def set_unmerged)
  have some: "ranks p = Some minScore" if "score ranks p = minScore" for p
    using that fin by (auto simp: score_def split: option.splits)
  have slot: "minScore \<le> score ranks (pairs ! nat i)
              \<and> (score ranks (pairs ! nat i) = minScore \<longrightarrow>
                   pairs ! nat i = pairs ! nat toMerge \<and> toMerge \<le> i)"
    if i: "0 \<le> i" "i < int (length pairs)" "i \<notin> merged" for i
  proof -
    from i have "i \<in> set us" by (simp add: us_def set_unmerged)
    then obtain j where j: "j < length us" and ij: "i = us ! j"
      by (auto simp: in_set_conv_nth)
    from least j ij have 1: "minScore \<le> score ranks (pairs ! nat i)" by simp
    have 2: "pairs ! nat i = pairs ! nat toMerge \<and> toMerge \<le> i"
      if eq: "score ranks (pairs ! nat i) = minScore"
    proof
      from some [OF eq] some [OF m [symmetric]] loadMergeRules_ranks(1) [OF load]
      show "pairs ! nat i = pairs ! nat toMerge"
        unfolding unique_ranks_def ranks_def by blast
      from left eq ij have "\<not> j < k" by auto
      then have "k \<le> j" by simp
      with sorted_unmerged [of "length pairs" merged] j
      show "toMerge \<le> i"
        unfolding tm ij us_def by (simp add: sorted_nth_mono)
    qed
    from 1 2 show ?thesis by blast
  qed
  from r some [OF m [symmetric]] slot show ?thesis
    unfolding ranks_def by blast
qed

lemma example_load_aa:
  "loadMergeRules (Content [''#version: 0.2'', ''a a'']) cleared
     = Inr (cleared\<lparr>m_bpeRanks := [([0x61], [0x61]) \<mapsto> 1]\<rparr>)"
  by (simp add: loadMergeRules_def getlines_def split_rule_def string_find_def eval_bits
      umap_insert_def)

theorem selection_ties_hold_equal_pairs_witness:
  "loadMergeRules (Content [''#version: 0.2'', ''a a'']) cleared
     = Inr (cleared\<lparr>m_bpeRanks := [([0x61], [0x61]) \<mapsto> 1]\<rparr>)
   \<and> select [([0x61], [0x61]) \<mapsto> 1] (getPairs [0x61, 0x61, 0x62, 0x61, 0x61]) {} = (1, 0)
   \<and> score [([0x61], [0x61]) \<mapsto> 1] (getPairs [0x61, 0x61, 0x62, 0x61, 0x61] ! nat 3) = 1
   \<and> getPairs [0x61, 0x61, 0x62, 0x61, 0x61] ! nat 3 = getPairs [0x61, 0x61, 0x62, 0x61, 0x61] ! nat 0
   \<and> (0::int) \<le> 3"
proof -
  have s: "select (m_bpeRanks (cleared\<lparr>m_bpeRanks := [([0x61], [0x61]) \<mapsto> 1]\<rparr>))
             (getPairs [0x61, 0x61, 0x62, 0x61, 0x61]) {} = (1, 0)"
    by (simp add: merge_eval)
  have sc: "score (m_bpeRanks (cleared\<lparr>m_bpeRanks := [([0x61], [0x61]) \<mapsto> 1]\<rparr>))
              (getPairs [0x61, 0x61, 0x62, 0x61, 0x61] ! nat 3) = 1"
    by (simp add: merge_eval)
  from selection_ties_hold_equal_pairs [OF example_load_aa s] sc
  have "getPairs [0x61, 0x61, 0x62, 0x61, 0x61] ! nat 3
          = getPairs [0x61, 0x61, 0x62, 0x61, 0x61] ! nat 0 \<and> (0::int) \<le> 3"
    by (simp add: getPairs_def)
  with example_load_aa s sc show ?thesis by simp
qed

text \<open>
  The claim as stated fails: for the token \<^verbatim>\<open>aaa\<close> and the table of the one rule \<^verbatim>\<open>a a\<close>, the
  two slots of the array are both not merged and both have the minimal finite rank 1 in
  the first iteration; the loop selects slot 0.
\<close>

theorem selection_tie_aaa:
  "loadMergeRules (Content [''#version: 0.2'', ''a a'']) cleared
     = Inr (cleared\<lparr>m_bpeRanks := [([0x61], [0x61]) \<mapsto> 1]\<rparr>)
   \<and> getPairs [0x61, 0x61, 0x61] = [([0x61], [0x61]), ([0x61], [0x61])]
   \<and> score [([0x61], [0x61]) \<mapsto> 1] (getPairs [0x61, 0x61, 0x61] ! 0) = 1
   \<and> score [([0x61], [0x61]) \<mapsto> 1] (getPairs [0x61, 0x61, 0x61] ! 1) = 1
   \<and> select [([0x61], [0x61]) \<mapsto> 1] (getPairs [0x61, 0x61, 0x61]) {} = (1, 0)"
  by (simp add: example_load_aa merge_eval)

section \<open>The pretokens of a text\<close>

text \<open>
  The successive matches \<^verbatim>\<open>match.str()\<close> the loop of \<^verbatim>\<open>tokenize\<close> sees: each search starts
  where the match before it ended.
\<close>

function pretokens :: "wstring \<Rightarrow> wstring list" where
  "pretokens ws =
     (case regex_search ws of
        None \<Rightarrow> []
      | Some (wtoken, rest) \<Rightarrow> wtoken # pretokens rest)"
  by pat_completeness auto
termination
  by (relation "measure length") (auto dest: regex_search_shorter)

declare pretokens.simps [simp del]

text \<open>The tokens of one pretoken: its UTF-8 bytes, byte-mapped, merged, and back in UTF-8.\<close>

definition pretoken_tokens :: "BPE \<Rightarrow> wstring \<Rightarrow> error + string list" where
  "pretoken_tokens T wtoken =
     and_then (byteEncodeToken T (wstringToUTF8 wtoken)) (\<lambda>enc.
       Inr (map wstringToUTF8 (bpe_symbols T enc)))"

fun collect :: "('a \<Rightarrow> error + 'b list) \<Rightarrow> 'a list \<Rightarrow> error + 'b list" where
  "collect f [] = Inr []"
| "collect f (x # xs) = and_then (f x) (\<lambda>ys. and_then (collect f xs) (\<lambda>zs. Inr (ys @ zs)))"

lemma tokenize_loop_pretokens:
  "fst (tokenize_loop T ws []) = collect (pretoken_tokens T) (pretokens ws)"
proof (induction ws rule: length_induct)
  case (1 ws)
  show ?case
  proof (cases "regex_search ws")
    case None
    then show ?thesis
      by (subst pretokens.simps) (simp add: tokenize_loop_unfold [of T ws])
  next
    case (Some p)
    obtain wtoken rest where p: "p = (wtoken, rest)" by (cases p)
    with Some have "length rest < length ws" by (simp add: regex_search_shorter)
    with 1 have IH: "fst (tokenize_loop T rest []) = collect (pretoken_tokens T) (pretokens rest)"
      by blast
    have pt: "pretokens ws = wtoken # pretokens rest"
      using Some p by (subst pretokens.simps) simp
    show ?thesis
    proof (cases "byteEncodeToken T (wstringToUTF8 wtoken)")
      case (Inl e)
      then have "pretoken_tokens T wtoken = Inl e"
        by (simp add: pretoken_tokens_def and_then_def)
      with Inl Some p show ?thesis
        by (simp add: tokenize_loop_unfold [of T ws] pt and_then_def)
    next
      case (Inr enc)
      let ?X = "map wstringToUTF8 (bpe_symbols T enc)"
      from Inr have pt1: "pretoken_tokens T wtoken = Inr ?X"
        by (simp add: pretoken_tokens_def and_then_def)
      have "fst (tokenize_loop T ws []) = fst (tokenize_loop T rest ?X)"
        using Some p Inr by (simp add: tokenize_loop_unfold [of T ws])
      also have "\<dots> = map_sum id ((@) ?X) (fst (tokenize_loop T rest []))"
        by (simp add: tokenize_loop_acc [of T rest ?X])
      also have "\<dots> = collect (pretoken_tokens T) (pretokens ws)"
        by (cases "collect (pretoken_tokens T) (pretokens rest)")
           (simp_all add: IH pt pt1 and_then_def)
      finally show ?thesis .
    qed
  qed
qed

lemma tokens_of_pretokens:
  "tokens_of T str =
     and_then (utf8ToWString str) (\<lambda>wtext. collect (pretoken_tokens T) (pretokens wtext))"
  by (simp add: tokens_of_def tokenize_def and_then_def tokenize_loop_pretokens
      split: sum.splits)

text \<open>
  A character is matched by some alternative when it is a letter, a digit, white space, or
  neither white space nor a word character. The underscore is a word character
  (\<^verbatim>\<open>\w\<close> is \<^verbatim>\<open>[A-Za-z0-9_]\<close>) that is neither a letter nor a digit: no alternative matches it.
\<close>

definition matchable :: "wchar \<Rightarrow> bool" where
  "matchable c = (is_letter c \<or> is_digit c \<or> is_other c \<or> is_space c)"

lemma matchable_iff: "matchable c \<longleftrightarrow> c \<noteq> 0x5F"
  by (auto simp: matchable_def is_other_def is_word_def is_letter_def is_digit_def is_space_def)

lemma takeWhile_hd: "P c \<Longrightarrow> takeWhile P (c # cs) \<noteq> []"
  by simp

lemma match_here_matchable:
  assumes "matchable c"
  shows "\<exists>n. match_here (c # cs) = Some n"
proof -
  have run: "opt_space_run P (c # cs) \<noteq> None" if "P c" for P
    using that by (simp add: opt_space_run_def)
  from assms consider "is_letter c" | "is_digit c" | "is_other c" | "is_space c"
    by (auto simp: matchable_def)
  then show ?thesis
  proof cases
    case 1
    with run [of is_letter] show ?thesis
      by (auto simp: match_here_def or_else_def split: option.splits)
  next
    case 2
    with run [of is_digit] show ?thesis
      by (auto simp: match_here_def or_else_def split: option.splits)
  next
    case 3
    with run [of is_other] show ?thesis
      by (auto simp: match_here_def or_else_def split: option.splits)
  next
    case 4
    then show ?thesis
      by (auto simp: match_here_def or_else_def split: option.splits)
  qed
qed

text \<open>Where every character is matchable the pretokens cover the text: nothing is skipped.\<close>

lemma pretokens_cover:
  "\<forall>c\<in>set ws. matchable c \<Longrightarrow> concat (pretokens ws) = ws"
proof (induction ws rule: length_induct)
  case (1 ws)
  show ?case
  proof (cases ws)
    case Nil
    then show ?thesis by (subst pretokens.simps) simp
  next
    case (Cons c cs)
    with "1.prems" obtain n where n: "match_here (c # cs) = Some n"
      using match_here_matchable [of c cs] by auto
    from match_here_bounds [OF n] have b: "0 < n" "n \<le> length ws" by (simp_all add: Cons)
    then have "length (drop n ws) < length ws" by simp
    moreover from "1.prems" have "\<forall>c\<in>set (drop n ws). matchable c"
      by (meson in_set_dropD)
    ultimately have "concat (pretokens (drop n ws)) = drop n ws" using "1.IH" by blast
    with n Cons show ?thesis by (subst pretokens.simps) simp
  qed
qed

text \<open>
  The run of \<^verbatim>\<open>tokenize\<close> on \<^verbatim>\<open>"a_b"\<close>: the search that starts at the underscore finds its
  match one character further, at \<^verbatim>\<open>b\<close>. The pretokens are \<^verbatim>\<open>a\<close> and \<^verbatim>\<open>b\<close>; the underscore is
  in none of them, and in none of the tokens.
\<close>

theorem pretokens_skip_underscore:
  "utf8ToWString ''a_b'' = Inr [0x61, 0x5F, 0x62]
   \<and> regex_search [0x5F, 0x62] = Some ([0x62], [])
   \<and> pretokens [0x61, 0x5F, 0x62] = [[0x61], [0x62]]
   \<and> concat (pretokens [0x61, 0x5F, 0x62]) = [0x61, 0x62]
   \<and> tokens_of example_bpe ''a_b'' = Inr [''a'', ''b'']"
  by (simp add: pretokens.simps tokenize_eval example_b2u example_ranks)

section \<open>\<^verbatim>\<open>utf8ToWString\<close> after \<^verbatim>\<open>wstringToUTF8\<close>, and back\<close>

lemma of_char_char_of_small: "x < 256 \<Longrightarrow> (of_char (char_of (x::nat)) :: nat) = x"
  by (simp add: of_char_of)

lemma mod_shifted:
  fixes a :: nat
  shows "a < 64 \<Longrightarrow> (128 + a) mod 64 = a" "a < 32 \<Longrightarrow> (192 + a) mod 32 = a"
    "a < 16 \<Longrightarrow> (224 + a) mod 16 = a" "a < 8 \<Longrightarrow> (240 + a) mod 8 = a"
  using mod_mult_self4 [of 64 2 a] mod_mult_self4 [of 32 6 a] mod_mult_self4 [of 16 14 a]
    mod_mult_self4 [of 8 30 a]
  by simp_all

lemma utf8ToWString_one_byte:
  assumes "w \<le> 0x7f"
  shows "utf8ToWString (utf8_of_wchar w @ rest) = and_then (utf8ToWString rest) (\<lambda>ws. Inr (w # ws))"
  using assms by (simp add: utf8_of_wchar_def of_char_char_of_small)

lemma utf8ToWString_two_bytes:
  assumes "0x7f < w" "w \<le> 0x7ff"
  shows "utf8ToWString (utf8_of_wchar w @ rest) = and_then (utf8ToWString rest) (\<lambda>ws. Inr (w # ws))"
proof -
  define a where "a = w div 64"
  define b where "b = w mod 64"
  have a: "a < 32" "2 \<le> a" and b: "b < 64" and w: "w = a * 64 + b"
    using assms by (auto simp: a_def b_def)
  have enc: "utf8_of_wchar w = [char_of (192 + a), char_of (128 + b)]"
    using assms a b by (simp add: utf8_of_wchar_def bits_arith a_def [symmetric] b_def [symmetric])
  have c0: "(of_char (char_of (192 + a) :: char) :: nat) = 192 + a"
    and c1: "(of_char (char_of (128 + b) :: char) :: nat) = 128 + b"
    using a b by (simp_all add: of_char_char_of_small)
  have "push_bit 6 ((192 + a) AND 0x1f) OR ((128 + b) AND 0x3f) = w"
    using a b by (simp add: bits_arith mod_shifted w)
  then show ?thesis
    using a b by (simp add: enc c0 c1 peek_def and_then_def split: sum.splits)
qed

lemma utf8ToWString_wstringToUTF8_small:
  "\<forall>w\<in>set ws. w \<le> 0x7ff \<Longrightarrow> utf8ToWString (wstringToUTF8 ws) = Inr ws"
proof (induction ws)
  case Nil
  then show ?case by (simp add: wstringToUTF8_def)
next
  case (Cons w ws)
  then have IH: "utf8ToWString (wstringToUTF8 ws) = Inr ws" and w: "w \<le> 0x7ff" by simp_all
  have "wstringToUTF8 (w # ws) = utf8_of_wchar w @ wstringToUTF8 ws"
    by (simp add: wstringToUTF8_def)
  then show ?case
    using utf8ToWString_one_byte [of w "wstringToUTF8 ws"]
      utf8ToWString_two_bytes [of w "wstringToUTF8 ws"] w IH
    by (cases "w \<le> 0x7f") (simp_all add: and_then_def)
qed

lemma wstringToUTF8_append [simp]:
  "wstringToUTF8 (a @ b) = wstringToUTF8 a @ wstringToUTF8 b"
  by (simp add: wstringToUTF8_def)

lemma wstringToUTF8_concat: "concat (map wstringToUTF8 wss) = wstringToUTF8 (concat wss)"
  by (induction wss) (simp_all add: wstringToUTF8_def)


text \<open>
  Well-formed UTF-8, as the Unicode standard defines it (table 3-7): the shortest form only,
  no surrogates, nothing above U+10FFFF.
\<close>

definition cont :: "char \<Rightarrow> bool" where
  "cont c = (0x80 \<le> (of_char c :: nat) \<and> (of_char c :: nat) \<le> 0xBF)"

fun wellformed_utf8 :: "string \<Rightarrow> bool" where
  "wellformed_utf8 [] = True"
| "wellformed_utf8 (c # cs) =
     (if (of_char c :: nat) \<le> 0x7F then wellformed_utf8 cs
      else if 0xC2 \<le> (of_char c :: nat) \<and> (of_char c :: nat) \<le> 0xDF then
        (case cs of
           c1 # r \<Rightarrow> cont c1 \<and> wellformed_utf8 r
         | _ \<Rightarrow> False)
      else if 0xE0 \<le> (of_char c :: nat) \<and> (of_char c :: nat) \<le> 0xEF then
        (case cs of
           c1 # c2 # r \<Rightarrow>
             cont c1 \<and> cont c2
             \<and> ((of_char c :: nat) = 0xE0 \<longrightarrow> 0xA0 \<le> (of_char c1 :: nat))
             \<and> ((of_char c :: nat) = 0xED \<longrightarrow> (of_char c1 :: nat) \<le> 0x9F)
             \<and> wellformed_utf8 r
         | _ \<Rightarrow> False)
      else if 0xF0 \<le> (of_char c :: nat) \<and> (of_char c :: nat) \<le> 0xF4 then
        (case cs of
           c1 # c2 # c3 # r \<Rightarrow>
             cont c1 \<and> cont c2 \<and> cont c3
             \<and> ((of_char c :: nat) = 0xF0 \<longrightarrow> 0x90 \<le> (of_char c1 :: nat))
             \<and> ((of_char c :: nat) = 0xF4 \<longrightarrow> (of_char c1 :: nat) \<le> 0x8F)
             \<and> wellformed_utf8 r
         | _ \<Rightarrow> False)
      else False)"

lemma char_of_of_char: "char_of (of_char c :: nat) = c"
  by simp

lemma divmod2:
  fixes x y :: nat
  assumes "y < 64"
  shows "(x * 64 + y) div 64 = x" "(x * 64 + y) mod 64 = y"
  using assms by simp_all

lemma divmod3:
  fixes a x y :: nat
  assumes "x < 64" "y < 64"
  shows "(a * 4096 + x * 64 + y) div 4096 = a" "(a * 4096 + x * 64 + y) div 64 mod 64 = x"
    "(a * 4096 + x * 64 + y) mod 64 = y"
proof -
  have e: "a * 4096 + x * 64 + y = (a * 64 + x) * 64 + y" by simp
  have d: "(a * 4096 + x * 64 + y) div 64 = a * 64 + x"
    unfolding e by (rule divmod2(1) [OF assms(2)])
  show "(a * 4096 + x * 64 + y) div 64 mod 64 = x"
    unfolding d by (rule divmod2(2) [OF assms(1)])
  show "(a * 4096 + x * 64 + y) mod 64 = y"
    unfolding e by (rule divmod2(2) [OF assms(2)])
  have "(a * 4096 + x * 64 + y) div 4096 = (a * 4096 + x * 64 + y) div 64 div 64"
    by (simp add: div_mult2_eq [symmetric])
  also have "\<dots> = a" unfolding d by (rule divmod2(1) [OF assms(1)])
  finally show "(a * 4096 + x * 64 + y) div 4096 = a" .
qed

lemma divmod4:
  fixes a x y z :: nat
  assumes "x < 64" "y < 64" "z < 64"
  shows "(a * 262144 + x * 4096 + y * 64 + z) div 262144 = a"
    "(a * 262144 + x * 4096 + y * 64 + z) div 4096 mod 64 = x"
    "(a * 262144 + x * 4096 + y * 64 + z) div 64 mod 64 = y"
    "(a * 262144 + x * 4096 + y * 64 + z) mod 64 = z"
proof -
  have e: "a * 262144 + x * 4096 + y * 64 + z = (a * 64 + x) * 4096 + y * 64 + z" by simp
  note d = divmod3 [OF assms(2,3), of "a * 64 + x", folded e]
  show "(a * 262144 + x * 4096 + y * 64 + z) div 64 mod 64 = y" by (rule d(2))
  show "(a * 262144 + x * 4096 + y * 64 + z) mod 64 = z" by (rule d(3))
  show "(a * 262144 + x * 4096 + y * 64 + z) div 4096 mod 64 = x"
    unfolding d(1) by (rule divmod2(2) [OF assms(1)])
  have "(a * 262144 + x * 4096 + y * 64 + z) div 262144
          = (a * 262144 + x * 4096 + y * 64 + z) div 4096 div 64"
    by (simp add: div_mult2_eq [symmetric])
  also have "\<dots> = a" unfolding d(1) by (rule divmod2(1) [OF assms(1)])
  finally show "(a * 262144 + x * 4096 + y * 64 + z) div 262144 = a" .
qed

lemma utf8ToWString_three_bytes:
  assumes "0x7ff < w" "w \<le> 0xffff"
  shows "utf8ToWString (utf8_of_wchar w @ rest) = and_then (utf8ToWString rest) (\<lambda>ws. Inr (w # ws))"
proof -
  define a where "a = w div 4096"
  define x where "x = w div 64 mod 64"
  define y where "y = w mod 64"
  have a: "a < 16" and x: "x < 64" and y: "y < 64"
    using assms by (auto simp: a_def x_def y_def)
  have "w = (w div 64) * 64 + y" by (simp add: y_def)
  also have "w div 64 = (w div 64 div 64) * 64 + x" by (simp add: x_def)
  also have "w div 64 div 64 = a" by (simp add: a_def div_mult2_eq [symmetric])
  finally have w: "w = a * 4096 + x * 64 + y" by simp
  have enc: "utf8_of_wchar w = [char_of (224 + a), char_of (128 + x), char_of (128 + y)]"
    using assms a x y
    by (simp add: utf8_of_wchar_def bits_arith a_def [symmetric] x_def [symmetric]
        y_def [symmetric])
  have c0: "(of_char (char_of (224 + a) :: char) :: nat) = 224 + a"
    and c1: "(of_char (char_of (128 + x) :: char) :: nat) = 128 + x"
    and c2: "(of_char (char_of (128 + y) :: char) :: nat) = 128 + y"
    using a x y by (simp_all add: of_char_char_of_small)
  have l: "x * 64 + y < 4096" using x y by simp
  have "push_bit 12 ((224 + a) AND 0x0f) OR push_bit 6 ((128 + x) AND 0x3f) OR ((128 + y) AND 0x3f)
          = a * 4096 OR x * 64 OR y"
    using a x y by (simp add: and_mask_mod mod_shifted push_bit_eq_mult)
  also have "\<dots> = a * 4096 OR (x * 64 + y)"
    using or_add_shifts(1) [OF y, of x] by simp
  also have "\<dots> = a * 4096 + (x * 64 + y)"
    by (rule or_add_shifts(2) [OF l])
  also have "\<dots> = w" by (simp add: w)
  finally have
    "push_bit 12 ((224 + a) AND 0x0f) OR push_bit 6 ((128 + x) AND 0x3f) OR ((128 + y) AND 0x3f) = w" .
  then show ?thesis
    using a x y by (simp add: enc c0 c1 c2 peek_def and_then_def split: sum.splits)
qed

lemma utf8ToWString_four_bytes:
  assumes "0xffff < w" "w \<le> 0x10ffff"
  shows "utf8ToWString (utf8_of_wchar w @ rest) = and_then (utf8ToWString rest) (\<lambda>ws. Inr (w # ws))"
proof -
  define a where "a = w div 262144"
  define x where "x = w div 4096 mod 64"
  define y where "y = w div 64 mod 64"
  define z where "z = w mod 64"
  have a: "a < 8" and x: "x < 64" and y: "y < 64" and z: "z < 64"
    using assms by (auto simp: a_def x_def y_def z_def)
  have "w = (w div 64) * 64 + z" by (simp add: z_def)
  also have "w div 64 = (w div 64 div 64) * 64 + y" by (simp add: y_def)
  also have "w div 64 div 64 = w div 4096" by (simp add: div_mult2_eq [symmetric])
  also have "w div 4096 = (w div 4096 div 64) * 64 + x" by (simp add: x_def)
  also have "w div 4096 div 64 = a" by (simp add: a_def div_mult2_eq [symmetric])
  finally have w: "w = a * 262144 + x * 4096 + y * 64 + z" by simp
  have enc: "utf8_of_wchar w
               = [char_of (240 + a), char_of (128 + x), char_of (128 + y), char_of (128 + z)]"
    using assms a x y z
    by (simp add: utf8_of_wchar_def bits_arith a_def [symmetric] x_def [symmetric]
        y_def [symmetric] z_def [symmetric])
  have c0: "(of_char (char_of (240 + a) :: char) :: nat) = 240 + a"
    and c1: "(of_char (char_of (128 + x) :: char) :: nat) = 128 + x"
    and c2: "(of_char (char_of (128 + y) :: char) :: nat) = 128 + y"
    and c3: "(of_char (char_of (128 + z) :: char) :: nat) = 128 + z"
    using a x y z by (simp_all add: of_char_char_of_small)
  have l: "y * 64 + z < 4096" using y z by simp
  have m: "x * 4096 + (y * 64 + z) < 262144" using x y z by simp
  have "push_bit 18 ((240 + a) AND 0x07) OR push_bit 12 ((128 + x) AND 0x3f)
          OR push_bit 6 ((128 + y) AND 0x3f) OR ((128 + z) AND 0x3f)
          = a * 262144 OR x * 4096 OR y * 64 OR z"
    using a x y z by (simp add: and_mask_mod mod_shifted push_bit_eq_mult)
  also have "\<dots> = a * 262144 OR x * 4096 OR (y * 64 + z)"
    using or_add_shifts(1) [OF z, of y] by simp
  also have "\<dots> = a * 262144 OR (x * 4096 + (y * 64 + z))"
    using or_add_shifts(2) [OF l, of x] by simp
  also have "\<dots> = a * 262144 + (x * 4096 + (y * 64 + z))"
    by (rule or_add_shifts(3) [OF m])
  also have "\<dots> = w" by (simp add: w)
  finally have
    "push_bit 18 ((240 + a) AND 0x07) OR push_bit 12 ((128 + x) AND 0x3f)
       OR push_bit 6 ((128 + y) AND 0x3f) OR ((128 + z) AND 0x3f) = w" .
  then show ?thesis
    using a x y z by (simp add: enc c0 c1 c2 c3 peek_def and_then_def split: sum.splits)
qed

lemma utf8ToWString_wstringToUTF8:
  "\<forall>w\<in>set ws. w \<le> 0x10ffff \<Longrightarrow> utf8ToWString (wstringToUTF8 ws) = Inr ws"
proof (induction ws)
  case Nil
  then show ?case by (simp add: wstringToUTF8_def)
next
  case (Cons w ws)
  then have IH: "utf8ToWString (wstringToUTF8 ws) = Inr ws" and w: "w \<le> 0x10ffff" by simp_all
  have e: "wstringToUTF8 (w # ws) = utf8_of_wchar w @ wstringToUTF8 ws"
    by (simp add: wstringToUTF8_def)
  consider "w \<le> 0x7f" | "0x7f < w" "w \<le> 0x7ff" | "0x7ff < w" "w \<le> 0xffff"
    | "0xffff < w" "w \<le> 0x10ffff"
    using w by linarith
  then have "utf8ToWString (utf8_of_wchar w @ wstringToUTF8 ws)
               = and_then (utf8ToWString (wstringToUTF8 ws)) (\<lambda>ws. Inr (w # ws))"
    by cases (rule utf8ToWString_one_byte utf8ToWString_two_bytes utf8ToWString_three_bytes
        utf8ToWString_four_bytes; assumption)+
  then show ?case unfolding e IH by (simp add: and_then_def)
qed

subsection \<open>Well-formed byte sequences are images of \<^verbatim>\<open>wstringToUTF8\<close>\<close>

lemma two_bytes_image:
  assumes "0xC2 \<le> (of_char c :: nat)" "(of_char c :: nat) \<le> 0xDF" "cont c1"
  shows "\<exists>w. 0x7f < w \<and> w \<le> 0x7ff \<and> utf8_of_wchar w = [c, c1]"
proof -
  define a where "a = (of_char c :: nat) - 192"
  define b where "b = (of_char c1 :: nat) - 128"
  define w where "w = a * 64 + b"
  have a: "2 \<le> a" "a < 32" and va: "(of_char c :: nat) = 192 + a"
    using assms by (simp_all add: a_def)
  have b: "b < 64" and vb: "(of_char c1 :: nat) = 128 + b"
    using assms by (auto simp: b_def cont_def)
  have r: "0x7f < w" "w \<le> 0x7ff" using a b by (simp_all add: w_def)
  have d: "w div 64 = a" "w mod 64 = b"
    unfolding w_def by (rule divmod2 [OF b])+
  have "utf8_of_wchar w = [char_of (192 + a), char_of (128 + b)]"
    using r a b by (simp add: utf8_of_wchar_def bits_arith d)
  also have "\<dots> = [c, c1]"
    unfolding va [symmetric] vb [symmetric] by simp
  finally show ?thesis using r by blast
qed

lemma three_bytes_image:
  assumes "0xE0 \<le> (of_char c :: nat)" "(of_char c :: nat) \<le> 0xEF" "cont c1" "cont c2"
    and "(of_char c :: nat) = 0xE0 \<longrightarrow> 0xA0 \<le> (of_char c1 :: nat)"
  shows "\<exists>w. 0x7ff < w \<and> w \<le> 0xffff \<and> utf8_of_wchar w = [c, c1, c2]"
proof -
  define a where "a = (of_char c :: nat) - 224"
  define x where "x = (of_char c1 :: nat) - 128"
  define y where "y = (of_char c2 :: nat) - 128"
  define w where "w = a * 4096 + x * 64 + y"
  have a: "a < 16" and va: "(of_char c :: nat) = 224 + a"
    using assms by (simp_all add: a_def)
  have x: "x < 64" and vx: "(of_char c1 :: nat) = 128 + x"
    using assms by (auto simp: x_def cont_def)
  have y: "y < 64" and vy: "(of_char c2 :: nat) = 128 + y"
    using assms by (auto simp: y_def cont_def)
  have low: "a = 0 \<longrightarrow> 32 \<le> x" using assms(5) va vx by simp
  have r: "0x7ff < w" "w \<le> 0xffff" using a x y low by (auto simp: w_def)
  have d: "w div 4096 = a" "w div 64 mod 64 = x" "w mod 64 = y"
    unfolding w_def by (rule divmod3 [OF x y])+
  have "utf8_of_wchar w = [char_of (224 + a), char_of (128 + x), char_of (128 + y)]"
    using r a x y by (simp add: utf8_of_wchar_def bits_arith d)
  also have "\<dots> = [c, c1, c2]"
    unfolding va [symmetric] vx [symmetric] vy [symmetric] by simp
  finally show ?thesis using r by blast
qed

lemma four_bytes_image:
  assumes "0xF0 \<le> (of_char c :: nat)" "(of_char c :: nat) \<le> 0xF4" "cont c1" "cont c2" "cont c3"
    and "(of_char c :: nat) = 0xF0 \<longrightarrow> 0x90 \<le> (of_char c1 :: nat)"
    and "(of_char c :: nat) = 0xF4 \<longrightarrow> (of_char c1 :: nat) \<le> 0x8F"
  shows "\<exists>w. 0xffff < w \<and> w \<le> 0x10ffff \<and> utf8_of_wchar w = [c, c1, c2, c3]"
proof -
  define a where "a = (of_char c :: nat) - 240"
  define x where "x = (of_char c1 :: nat) - 128"
  define y where "y = (of_char c2 :: nat) - 128"
  define z where "z = (of_char c3 :: nat) - 128"
  define w where "w = a * 262144 + x * 4096 + y * 64 + z"
  have a: "a \<le> 4" and va: "(of_char c :: nat) = 240 + a"
    using assms by (simp_all add: a_def)
  have x: "x < 64" and vx: "(of_char c1 :: nat) = 128 + x"
    using assms by (auto simp: x_def cont_def)
  have y: "y < 64" and vy: "(of_char c2 :: nat) = 128 + y"
    using assms by (auto simp: y_def cont_def)
  have z: "z < 64" and vz: "(of_char c3 :: nat) = 128 + z"
    using assms by (auto simp: z_def cont_def)
  have low: "a = 0 \<longrightarrow> 16 \<le> x" using assms(6) va vx by simp
  have high: "a = 4 \<longrightarrow> x \<le> 15" using assms(7) va vx by simp
  have r: "0xffff < w" "w \<le> 0x10ffff" using a x y z low high by (auto simp: w_def)
  have d: "w div 262144 = a" "w div 4096 mod 64 = x" "w div 64 mod 64 = y" "w mod 64 = z"
    unfolding w_def by (rule divmod4 [OF x y z])+
  have a8: "a < 8" using a by simp
  have "utf8_of_wchar w
          = [char_of (240 + a), char_of (128 + x), char_of (128 + y), char_of (128 + z)]"
    using r a8 x y z by (simp add: utf8_of_wchar_def bits_arith d)
  also have "\<dots> = [c, c1, c2, c3]"
    unfolding va [symmetric] vx [symmetric] vy [symmetric] vz [symmetric] by simp
  finally show ?thesis using r by blast
qed

lemma wellformed_utf8_cases:
  assumes "wellformed_utf8 (c # cs)"
  obtains
    (one) "(of_char c :: nat) \<le> 0x7F" "wellformed_utf8 cs"
  | (two) c1 r where "cs = c1 # r" "0xC2 \<le> (of_char c :: nat)" "(of_char c :: nat) \<le> 0xDF"
      "cont c1" "wellformed_utf8 r"
  | (three) c1 c2 r where "cs = c1 # c2 # r" "0xE0 \<le> (of_char c :: nat)"
      "(of_char c :: nat) \<le> 0xEF" "cont c1" "cont c2"
      "(of_char c :: nat) = 0xE0 \<longrightarrow> 0xA0 \<le> (of_char c1 :: nat)" "wellformed_utf8 r"
  | (four) c1 c2 c3 r where "cs = c1 # c2 # c3 # r" "0xF0 \<le> (of_char c :: nat)"
      "(of_char c :: nat) \<le> 0xF4" "cont c1" "cont c2" "cont c3"
      "(of_char c :: nat) = 0xF0 \<longrightarrow> 0x90 \<le> (of_char c1 :: nat)"
      "(of_char c :: nat) = 0xF4 \<longrightarrow> (of_char c1 :: nat) \<le> 0x8F" "wellformed_utf8 r"
proof (cases "(of_char c :: nat) \<le> 0x7F")
  case True
  then show ?thesis using assms one by simp
next
  case n1: False
  show ?thesis
  proof (cases "0xC2 \<le> (of_char c :: nat) \<and> (of_char c :: nat) \<le> 0xDF")
    case True
    then show ?thesis using assms n1 two by (simp split: list.splits)
  next
    case n2: False
    show ?thesis
    proof (cases "0xE0 \<le> (of_char c :: nat) \<and> (of_char c :: nat) \<le> 0xEF")
      case True
      then show ?thesis using assms n1 n2 three [of "hd cs" "hd (tl cs)" "tl (tl cs)"]
        by (simp split: list.splits)
    next
      case n3: False
      then show ?thesis using assms n1 n2 four [of "hd cs" "hd (tl cs)" "hd (tl (tl cs))" "tl (tl (tl cs))"]
        by (simp split: list.splits if_splits)
    qed
  qed
qed

lemma utf8_image_step:
  assumes "utf8_of_wchar w = pre" "w \<le> 0x10ffff" "0x7f < w \<or> char_of w \<in> set pre"
    and "\<exists>ws. wstringToUTF8 ws = r \<and> (\<forall>w\<in>set ws. w \<le> 0x10ffff)
           \<and> (\<forall>w\<in>set ws. w \<le> 0x7f \<longrightarrow> char_of w \<in> set r)"
  shows "\<exists>ws. wstringToUTF8 ws = pre @ r \<and> (\<forall>w\<in>set ws. w \<le> 0x10ffff)
           \<and> (\<forall>w\<in>set ws. w \<le> 0x7f \<longrightarrow> char_of w \<in> set (pre @ r))"
proof -
  from assms(4) obtain ws where ws: "wstringToUTF8 ws = r" "\<forall>w\<in>set ws. w \<le> 0x10ffff"
    "\<forall>w\<in>set ws. w \<le> 0x7f \<longrightarrow> char_of w \<in> set r"
    by blast
  have "wstringToUTF8 (w # ws) = pre @ r"
    using assms(1) ws(1) by (simp add: wstringToUTF8_def)
  moreover have "\<forall>v\<in>set (w # ws). v \<le> 0x10ffff" using assms(2) ws(2) by simp
  moreover have "\<forall>v\<in>set (w # ws). v \<le> 0x7f \<longrightarrow> char_of v \<in> set (pre @ r)"
    using assms(3) ws(3) by auto
  ultimately show ?thesis by blast
qed

lemma wellformed_utf8_image:
  "wellformed_utf8 s \<Longrightarrow>
     \<exists>ws. wstringToUTF8 ws = s \<and> (\<forall>w\<in>set ws. w \<le> 0x10ffff)
       \<and> (\<forall>w\<in>set ws. w \<le> 0x7f \<longrightarrow> char_of w \<in> set s)"
proof (induction s rule: length_induct)
  case (1 s)
  note IH = 1(1) [rule_format] and wf = 1(2)
  show ?case
  proof (cases s)
    case Nil
    have "wstringToUTF8 [] = []" by (simp add: wstringToUTF8_def)
    then show ?thesis unfolding Nil by (intro exI [of _ "[]"]) simp
  next
    case (Cons c cs)
    from wf [unfolded Cons] show ?thesis
    proof (cases rule: wellformed_utf8_cases)
      case one
      have "utf8_of_wchar (of_char c) = [c]" using one(1) by (simp add: utf8_of_wchar_def)
      moreover have "(of_char c :: nat) \<le> 0x10ffff" using one(1) by simp
      moreover have "0x7f < (of_char c :: nat) \<or> char_of (of_char c :: nat) \<in> set [c]" by simp
      moreover have "length cs < length s" by (simp add: Cons)
      ultimately show ?thesis
        using utf8_image_step [OF _ _ _ IH [OF _ one(2)], of "of_char c" "[c]"]
        by (simp add: Cons)
    next
      case (two c1 r)
      obtain w where w: "0x7f < w" "w \<le> 0x7ff" "utf8_of_wchar w = [c, c1]"
        using two_bytes_image [OF two(2,3,4)] by blast
      have "length r < length s" by (simp add: Cons two(1))
      then show ?thesis
        using utf8_image_step [OF w(3) _ _ IH [OF _ two(5)]] w(1,2)
        by (simp add: Cons two(1))
    next
      case (three c1 c2 r)
      obtain w where w: "0x7ff < w" "w \<le> 0xffff" "utf8_of_wchar w = [c, c1, c2]"
        using three_bytes_image [OF three(2,3,4,5,6)] by blast
      have "length r < length s" by (simp add: Cons three(1))
      then show ?thesis
        using utf8_image_step [OF w(3) _ _ IH [OF _ three(7)]] w(1,2)
        by (simp add: Cons three(1))
    next
      case (four c1 c2 c3 r)
      obtain w where w: "0xffff < w" "w \<le> 0x10ffff" "utf8_of_wchar w = [c, c1, c2, c3]"
        using four_bytes_image [OF four(2,3,4,5,6,7,8)] by blast
      have "length r < length s" by (simp add: Cons four(1))
      then show ?thesis
        using utf8_image_step [OF w(3) _ _ IH [OF _ four(9)]] w(1,2)
        by (simp add: Cons four(1))
    qed
  qed
qed

lemma wellformed_utf8_wide:
  assumes "wellformed_utf8 s"
  obtains ws where "utf8ToWString s = Inr ws" "wstringToUTF8 ws = s"
    "CHR 0x5F \<notin> set s \<Longrightarrow> \<forall>w\<in>set ws. w \<noteq> 0x5F"
proof -
  obtain ws where ws: "wstringToUTF8 ws = s" "\<forall>w\<in>set ws. w \<le> 0x10ffff"
    "\<forall>w\<in>set ws. w \<le> 0x7f \<longrightarrow> char_of w \<in> set s"
    using wellformed_utf8_image [OF assms] by blast
  have "utf8ToWString s = Inr ws"
    using utf8ToWString_wstringToUTF8 [OF ws(2)] by (simp add: ws(1))
  moreover have "\<forall>w\<in>set ws. w \<noteq> 0x5F" if "CHR 0x5F \<notin> set s"
  proof
    fix w assume "w \<in> set ws"
    then have "w \<le> 0x7f \<longrightarrow> char_of w \<in> set s" using ws(3) by blast
    moreover have "char_of (0x5F :: nat) = CHR 0x5F" by (simp add: char_of_def bit_iff_odd)
    ultimately show "w \<noteq> 0x5F" using that by auto
  qed
  ultimately show ?thesis using that ws(1) by blast
qed

section \<open>\<^verbatim>\<open>decode\<close> after \<^verbatim>\<open>encode\<close>\<close>

text \<open>
  The tokens of a text are pieces of one string: the UTF-8 form of the byte-mapped text.
  \<^verbatim>\<open>decode\<close> joins the pieces, reads the code points back and maps them to the bytes.
\<close>

lemma construct_tables:
  assumes "construct mergesFile vocabsFile = Inr T"
  shows "m_b2u T c = Some (b2u_val c)" "m_u2b T (b2u_val c) = Some c"
proof -
  from assms obtain T2 where "T = bytesToUnicode T2"
    by (auto simp: construct_def and_then_def split: sum.splits)
  then show "m_b2u T c = Some (b2u_val c)" "m_u2b T (b2u_val c) = Some c"
    by (simp_all add: m_b2u_bytesToUnicode m_u2b_bytesToUnicode)
qed

lemma byteEncodeToken_map:
  "(\<And>c. m_b2u T c = Some (b2u_val c)) \<Longrightarrow> byteEncodeToken T s = Inr (map b2u_val s)"
  by (induction s) (simp_all add: umap_at_def and_then_def)

lemma lookup_bytes_map:
  "(\<And>c. m_u2b T (b2u_val c) = Some c) \<Longrightarrow> lookup_bytes T (map b2u_val s) = Inr s"
  by (induction s) (simp_all add: umap_at_def and_then_def)

lemma b2u_val_bound: "b2u_val c \<le> 0x10ffff"
proof -
  define n where "n = (of_char c :: nat)"
  define k where "k = length (filter (\<lambda>x. \<not> printable x) [0..<n])"
  have n: "n < 256" unfolding n_def by (rule nat_of_char_less_256)
  have "k \<le> n"
    unfolding k_def using length_filter_le [of "\<lambda>x. \<not> printable x" "[0..<n]"] by simp
  with n have "n \<le> 0x10ffff" "256 + k \<le> 0x10ffff" by simp_all
  then show ?thesis
    unfolding b2u_val_def n_def [symmetric] k_def [symmetric] by simp
qed

text \<open>The string the tokens of a text are pieces of.\<close>

definition mapped :: "string \<Rightarrow> string" where
  "mapped s = wstringToUTF8 (map b2u_val s)"

lemma mapped_append: "mapped (a @ b) = mapped a @ mapped b"
  by (simp add: mapped_def)

lemma mapped_concat: "concat (map mapped ss) = mapped (concat ss)"
  by (induction ss) (simp_all add: mapped_append, simp add: mapped_def wstringToUTF8_def)

lemma utf8ToWString_mapped: "utf8ToWString (mapped s) = Inr (map b2u_val s)"
  unfolding mapped_def by (rule utf8ToWString_wstringToUTF8) (simp add: b2u_val_bound)

lemma pretoken_tokens_concat:
  assumes "\<And>c. m_b2u T c = Some (b2u_val c)"
  shows "\<exists>toks. pretoken_tokens T p = Inr toks \<and> concat toks = mapped (wstringToUTF8 p)"
proof -
  have "pretoken_tokens T p
          = Inr (map wstringToUTF8 (bpe_symbols T (map b2u_val (wstringToUTF8 p))))"
    by (simp add: pretoken_tokens_def byteEncodeToken_map [OF assms] and_then_def)
  moreover have "concat (map wstringToUTF8 (bpe_symbols T (map b2u_val (wstringToUTF8 p))))
                   = mapped (wstringToUTF8 p)"
    by (simp only: wstringToUTF8_concat concat_bpe_symbols mapped_def)
  ultimately show ?thesis by blast
qed

lemma collect_concat:
  "(\<And>x. x \<in> set xs \<Longrightarrow> \<exists>ys. f x = Inr ys \<and> concat ys = g x) \<Longrightarrow>
     \<exists>zs. collect f xs = Inr zs \<and> concat zs = concat (map g xs)"
proof (induction xs)
  case Nil
  then show ?case by simp
next
  case (Cons x xs)
  obtain ys where ys: "f x = Inr ys" "concat ys = g x"
    using Cons.prems [of x] by auto
  obtain zs where zs: "collect f xs = Inr zs" "concat zs = concat (map g xs)"
    using Cons.IH Cons.prems by (meson list.set_intros(2))
  have "collect f (x # xs) = Inr (ys @ zs)" by (simp add: ys(1) zs(1) and_then_def)
  moreover have "concat (ys @ zs) = concat (map g (x # xs))" by (simp add: ys(2) zs(2))
  ultimately show ?case by blast
qed

lemma tokens_of_concat:
  assumes tab: "\<And>c. m_b2u T c = Some (b2u_val c)"
    and wf: "wellformed_utf8 seg" and us: "CHR 0x5F \<notin> set seg"
  shows "\<exists>toks. tokens_of T seg = Inr toks \<and> concat toks = mapped seg"
proof -
  obtain ws where ws: "utf8ToWString seg = Inr ws" "wstringToUTF8 ws = seg"
    "\<forall>w\<in>set ws. w \<noteq> 0x5F"
    using wellformed_utf8_wide [OF wf] us by blast
  have cover: "concat (pretokens ws) = ws"
    by (rule pretokens_cover) (simp add: matchable_iff ws(3))
  obtain toks where toks: "collect (pretoken_tokens T) (pretokens ws) = Inr toks"
    "concat toks = concat (map (\<lambda>p. mapped (wstringToUTF8 p)) (pretokens ws))"
    using collect_concat [of "pretokens ws" "pretoken_tokens T" "\<lambda>p. mapped (wstringToUTF8 p)"]
      pretoken_tokens_concat [OF tab]
    by blast
  have "concat (map (\<lambda>p. mapped (wstringToUTF8 p)) (pretokens ws))
          = concat (map mapped (map wstringToUTF8 (pretokens ws)))"
    by (simp add: comp_def)
  also have "\<dots> = mapped (wstringToUTF8 (concat (pretokens ws)))"
    by (simp only: mapped_concat wstringToUTF8_concat)
  also have "\<dots> = mapped seg" by (simp only: cover ws(2))
  finally have "concat toks = mapped seg" using toks(2) by simp
  moreover have "tokens_of T seg = Inr toks"
    by (simp add: tokens_of_pretokens ws(1) and_then_def toks(1))
  ultimately show ?thesis by blast
qed

text \<open>
  The marker is emitted as it is, not byte-mapped. It is its own byte-mapped UTF-8 form
  when each of its bytes is one of \<^verbatim>\<open>'!'..'~'\<close>.
\<close>

lemma mapped_plain:
  "\<forall>c\<in>set eot. 0x21 \<le> (of_char c :: nat) \<and> (of_char c :: nat) \<le> 0x7E \<Longrightarrow> mapped eot = eot"
proof (induction eot)
  case Nil
  then show ?case by (simp add: mapped_def wstringToUTF8_def)
next
  case (Cons c cs)
  then have c: "0x21 \<le> (of_char c :: nat)" "(of_char c :: nat) \<le> 0x7E" and IH: "mapped cs = cs"
    by simp_all
  have "b2u_val c = of_char c" using c by (simp add: b2u_val_def printable_def)
  moreover have "utf8_of_wchar (of_char c) = [c]" using c by (simp add: utf8_of_wchar_def)
  ultimately have "mapped [c] = [c]" by (simp add: mapped_def wstringToUTF8_def)
  with mapped_append [of "[c]" cs] IH show ?case by simp
qed

text \<open>The text a list of segments was split from: the segments with the marker between them.\<close>

fun join_segments :: "string \<Rightarrow> string list \<Rightarrow> string" where
  "join_segments eot [] = []"
| "join_segments eot [seg] = seg"
| "join_segments eot (seg # segs) = seg @ eot @ join_segments eot segs"

lemma join_segments_Cons:
  "join_segments eot ((c # seg) # segs) = c # join_segments eot (seg # segs)"
  by (cases segs) simp_all

lemma join_split_on: "eot \<noteq> [] \<Longrightarrow> join_segments eot (split_on eot s) = s"
proof (induction eot s rule: split_on.induct)
  case (1 eot)
  then show ?case by simp
next
  case (2 eot c cs)
  show ?case
  proof (cases "prefix eot (c # cs)")
    case True
    let ?r = "drop (length eot) (c # cs)"
    obtain seg segs where ss: "split_on eot ?r = seg # segs"
      using split_on_nonempty [of eot ?r] by (cases "split_on eot ?r") auto
    have "join_segments eot (seg # segs) = ?r"
      using "2.IH"(1) "2.prems" True ss by simp
    moreover have "eot @ ?r = c # cs"
      using True by (auto simp: prefix_def)
    ultimately show ?thesis
      using True "2.prems" ss by simp
  next
    case False
    obtain seg segs where ss: "split_on eot cs = seg # segs"
      using split_on_nonempty [of eot cs] by (cases "split_on eot cs") auto
    have "join_segments eot (seg # segs) = cs"
      using "2.IH"(2) "2.prems" False ss by simp
    then show ?thesis
      using False ss by (simp add: join_segments_Cons)
  qed
qed

lemma segment_tokens_concat:
  assumes tab: "\<And>c. m_b2u T c = Some (b2u_val c)" and mk: "mapped eot = eot"
  shows "\<forall>seg\<in>set segs. wellformed_utf8 seg \<and> CHR 0x5F \<notin> set seg \<Longrightarrow>
    \<exists>toks. segment_tokens T eot segs = Inr toks \<and> concat toks = mapped (join_segments eot segs)"
proof (induction segs rule: induct_list012)
  case 1
  show ?case by (simp add: mapped_def wstringToUTF8_def)
next
  case (2 seg)
  then show ?case using tokens_of_concat [OF tab, of seg] by simp
next
  case (3 seg seg' segs)
  obtain ts where ts: "tokens_of T seg = Inr ts" "concat ts = mapped seg"
    using tokens_of_concat [OF tab, of seg] 3(3) by auto
  obtain rest where rest: "segment_tokens T eot (seg' # segs) = Inr rest"
    "concat rest = mapped (join_segments eot (seg' # segs))"
    using 3(2) 3(3) by auto
  have "segment_tokens T eot (seg # seg' # segs) = Inr (ts @ [eot] @ rest)"
    by (simp add: ts(1) rest(1) and_then_def)
  moreover have "concat (ts @ [eot] @ rest) = mapped (join_segments eot (seg # seg' # segs))"
    by (simp add: ts(2) rest(2) mapped_append mk)
  ultimately show ?case by blast
qed

text \<open>
  A token is known when \<^verbatim>\<open>m_t2i\<close> has an id for it and \<^verbatim>\<open>m_i2t\<close> has the token for that id.
\<close>

definition known_token :: "BPE \<Rightarrow> string \<Rightarrow> bool" where
  "known_token T tok = (case m_t2i T tok of None \<Rightarrow> False | Some i \<Rightarrow> m_i2t T i = Some tok)"

lemma lookup_known:
  "\<forall>tok\<in>set toks. known_token T tok \<Longrightarrow>
     \<exists>ids. lookup_ids T toks = Inr ids \<and> lookup_tokens T ids = Inr (concat toks)"
proof (induction toks)
  case Nil
  then show ?case by simp
next
  case (Cons tok toks)
  then obtain i where i: "m_t2i T tok = Some i" "m_i2t T i = Some tok"
    by (auto simp: known_token_def split: option.splits)
  obtain ids where ids: "lookup_ids T toks = Inr ids" "lookup_tokens T ids = Inr (concat toks)"
    using Cons by auto
  have "lookup_ids T (tok # toks) = Inr (i # ids)"
    by (simp add: i(1) ids(1) umap_at_def and_then_def)
  moreover have "lookup_tokens T (i # ids) = Inr (concat (tok # toks))"
    by (simp add: i(2) ids(2) umap_at_def and_then_def)
  ultimately show ?case by blast
qed

text \<open>
  Claim C1, as the code has it. Take a tokenizer the constructor has built, a non-empty
  marker of bytes \<^verbatim>\<open>'!'..'~'\<close>, and a text whose segments between the markers are well-formed
  UTF-8 without the underscore byte. If every token \<^verbatim>\<open>encode\<close> produces is known (the two
  vocabulary tables agree on it), then \<^verbatim>\<open>encode\<close> returns ids, and \<^verbatim>\<open>decode\<close> of these ids
  returns the text.
\<close>

theorem decode_encode_roundtrip:
  assumes con: "construct mergesFile vocabsFile = Inr T"
    and ne: "eot \<noteq> []"
    and plain: "\<forall>c\<in>set eot. 0x21 \<le> (of_char c :: nat) \<and> (of_char c :: nat) \<le> 0x7E"
    and segs: "\<forall>seg\<in>set (split_on eot str). wellformed_utf8 seg \<and> CHR 0x5F \<notin> set seg"
    and known: "\<forall>toks. segment_tokens T eot (split_on eot str) = Inr toks
                  \<longrightarrow> (\<forall>tok\<in>set toks. known_token T tok)"
  shows "\<exists>ids. encode T str eot = Some (Inr ids, T) \<and> decode T ids = (Inr str, T)"
proof -
  note tab = construct_tables [OF con]
  have mk: "mapped eot = eot" by (rule mapped_plain [OF plain])
  obtain toks where toks: "segment_tokens T eot (split_on eot str) = Inr toks"
    "concat toks = mapped (join_segments eot (split_on eot str))"
    using segment_tokens_concat [OF tab(1) mk segs] by blast
  have c: "concat toks = mapped str" by (simp only: toks(2) join_split_on [OF ne])
  from known toks(1) have "\<forall>tok\<in>set toks. known_token T tok" by blast
  then obtain ids where ids: "lookup_ids T toks = Inr ids"
    "lookup_tokens T ids = Inr (concat toks)"
    using lookup_known by blast
  have "encode T str eot = Some (Inr ids, T)"
    by (simp add: encode_eq_segments [OF ne] toks(1) ids(1) and_then_def)
  moreover have "decode T ids = (Inr str, T)"
    by (simp add: decode_def ids(2) c utf8ToWString_mapped and_then_def
        lookup_bytes_map [OF tab(2)])
  ultimately show ?thesis by blast
qed

lemma example_known:
  "known_token example_bpe ''abc''" "known_token example_bpe endoftext"
  "known_token example_bpe ''ab''" "known_token example_bpe [CHR 0xC4, CHR 0xA0]"
  "known_token example_bpe ''d''" "known_token example_bpe [CHR 0xC3, CHR 0x83]"
  "known_token example_bpe [CHR 0xC2, CHR 0xA8]"
  by (simp_all add: known_token_def example_t2i example_i2t example_tables_def endoftext_def)

lemma endoftext_plain:
  "\<forall>c\<in>set endoftext. 0x21 \<le> (of_char c :: nat) \<and> (of_char c :: nat) \<le> 0x7E"
  by (simp add: endoftext_def)

lemma example_segments_wellformed:
  "\<forall>seg\<in>set (split_on endoftext ''abc<|endoftext|>ab d'').
     wellformed_utf8 seg \<and> CHR 0x5F \<notin> set seg"
proof -
  have "wellformed_utf8 ''abc''" "wellformed_utf8 ''ab d''" by simp_all
  moreover have "CHR 0x5F \<notin> set ''abc''" "CHR 0x5F \<notin> set ''ab d''" by simp_all
  ultimately show ?thesis unfolding example_split by simp
qed

lemma example_tokens_known:
  "\<forall>toks. segment_tokens example_bpe endoftext (split_on endoftext ''abc<|endoftext|>ab d'')
            = Inr toks \<longrightarrow> (\<forall>tok\<in>set toks. known_token example_bpe tok)"
  unfolding example_split example_segment_tokens by (simp add: example_known)

theorem decode_encode_roundtrip_witness:
  "construct (Content example_merges) (Content example_vocab) = Inr example_bpe
   \<and> split_on endoftext ''abc<|endoftext|>ab d'' = [''abc'', ''ab d'']
   \<and> encode example_bpe ''abc<|endoftext|>ab d'' endoftext
       = Some (Inr [4, 7, 3, 6, 5], example_bpe)
   \<and> decode example_bpe [4, 7, 3, 6, 5] = (Inr ''abc<|endoftext|>ab d'', example_bpe)"
proof -
  obtain ids where ids:
    "encode example_bpe ''abc<|endoftext|>ab d'' endoftext = Some (Inr ids, example_bpe)"
    "decode example_bpe ids = (Inr ''abc<|endoftext|>ab d'', example_bpe)"
    using decode_encode_roundtrip [OF example_construct endoftext_nonempty endoftext_plain
        example_segments_wellformed example_tokens_known]
    by blast
  from ids(1) have "ids = [4, 7, 3, 6, 5]" by (simp add: example_encode)
  with ids have "encode example_bpe ''abc<|endoftext|>ab d'' endoftext
                   = Some (Inr [4, 7, 3, 6, 5], example_bpe)"
    "decode example_bpe [4, 7, 3, 6, 5] = (Inr ''abc<|endoftext|>ab d'', example_bpe)"
    by simp_all
  with example_construct example_split show ?thesis by blast
qed

text \<open>
  The claim as stated fails for a text that is not well-formed UTF-8. The two bytes
  \<^verbatim>\<open>0xC3 0x28\<close> are read by \<^verbatim>\<open>utf8ToWString\<close> as the one code point \<^verbatim>\<open>0xE8\<close>, whose UTF-8 form
  is \<^verbatim>\<open>0xC3 0xA8\<close>; both tokens produced are in the vocabulary, \<^verbatim>\<open>encode\<close> returns their ids,
  and \<^verbatim>\<open>decode\<close> of these ids returns \<^verbatim>\<open>0xC3 0xA8\<close>.
\<close>

lemma example_tokens_malformed:
  "tokens_of example_bpe [CHR 0xC3, CHR 0x28] = Inr [[CHR 0xC3, CHR 0x83], [CHR 0xC2, CHR 0xA8]]"
  by (simp add: tokenize_eval example_b2u example_ranks)

lemma example_encode_malformed:
  "encode example_bpe [CHR 0xC3, CHR 0x28] endoftext = Some (Inr [8, 9], example_bpe)"
proof -
  have "split_on endoftext [CHR 0xC3, CHR 0x28] = [[CHR 0xC3, CHR 0x28]]"
    by (simp add: endoftext_def)
  moreover have "lookup_ids example_bpe [[CHR 0xC3, CHR 0x83], [CHR 0xC2, CHR 0xA8]] = Inr [8, 9]"
    by (simp add: umap_at_def and_then_def example_t2i example_tables_def)
  ultimately show ?thesis
    by (simp add: encode_eq_segments [OF endoftext_nonempty] example_tokens_malformed
        and_then_def)
qed

lemma example_decode_malformed:
  "decode example_bpe [8, 9] = (Inr [CHR 0xC3, CHR 0xA8], example_bpe)"
  by (simp add: decode_def umap_at_def example_i2t example_tables_def eval_bits
      example_u2b_printable printable_def)

theorem decode_encode_malformed:
  "tokens_of example_bpe [CHR 0xC3, CHR 0x28] = Inr [[CHR 0xC3, CHR 0x83], [CHR 0xC2, CHR 0xA8]]
   \<and> known_token example_bpe [CHR 0xC3, CHR 0x83]
   \<and> known_token example_bpe [CHR 0xC2, CHR 0xA8]
   \<and> encode example_bpe [CHR 0xC3, CHR 0x28] endoftext = Some (Inr [8, 9], example_bpe)
   \<and> decode example_bpe [8, 9] = (Inr [CHR 0xC3, CHR 0xA8], example_bpe)"
  by (simp only: example_tokens_malformed example_known example_encode_malformed
      example_decode_malformed simp_thms)

end
